theory Spec2Isabelle
  imports
    Complex_Main
    "HOL-Library.Sublist"
    "HOL-Library.Char_ord"
    "HOL-Library.List_Lexorder"
    "HOL-Library.AList"
    "HOL-Library.Multiset"
begin

section \<open>The frontend: sort state of PropsTable (src/frontend/src/App.tsx)\<close>

text \<open>
  \<^verbatim>\<open>type SortField = 'player_name' | 'prop_type' | 'line' | 'prizepicks_odds'
                 | 'pinnacle_over' | 'pinnacle_under' | 'no_vig_over' | 'no_vig_under'\<close>
  and \<^verbatim>\<open>type SortDirection = 'asc' | 'desc'\<close>.
\<close>

datatype SortField =
    F_player_name | F_prop_type | F_line | F_prizepicks_odds
  | F_pinnacle_over | F_pinnacle_under | F_no_vig_over | F_no_vig_under

datatype SortDirection = Asc | Desc

text \<open>
  The local state of the component, one field per \<^verbatim>\<open>useState\<close> hook, with the
  initial values the hooks are given.
\<close>

record ui_state =
  searchTerm :: string
  selectedPropType :: string
  sortField :: SortField
  sortDirection :: SortDirection
  lastUpdated :: string

definition initial_state :: ui_state where
  "initial_state =
     \<lparr>searchTerm = '''', selectedPropType = ''all'', sortField = F_no_vig_over,
      sortDirection = Desc, lastUpdated = ''''\<rparr>"

text \<open>
  \<^verbatim>\<open>const handleSort = (field: SortField) => {
    if (field === sortField) {
      setSortDirection(sortDirection === 'asc' ? 'desc' : 'asc')
    } else {
      setSortField(field)
      setSortDirection('asc')
    }
  }\<close>
  The setters are state passing: the handler reads the state of the render it was created
  in and returns the state of the next one.
\<close>

definition handleSort :: "SortField \<Rightarrow> ui_state \<Rightarrow> ui_state" where
  "handleSort field st =
     (if field = sortField st
      then st\<lparr>sortDirection := (if sortDirection st = Asc then Desc else Asc)\<rparr>
      else st\<lparr>sortField := field, sortDirection := Asc\<rparr>)"

section \<open>The frontend: data received from the \<^verbatim>\<open>/props\<close> endpoint\<close>

text \<open>
  Numbers are modelled by their exact rational value. An exception of the language
  (a method called on \<^verbatim>\<open>null\<close>) is a value of \<open>js_error\<close>.
\<close>

datatype js_error = TypeError | NetworkError

text \<open>
  \<^verbatim>\<open>interface Prop { player_name: string; prop_type: string; line: number;
    prizepicks_odds: number; pinnacle_over: number; pinnacle_under: number;
    no_vig_over: number; no_vig_under: number }\<close>
  The interface is erased at run time and the sort comparator tests field values against
  \<^verbatim>\<open>null\<close>, so every field is the declared type or \<^verbatim>\<open>null\<close> (\<open>None\<close>).
\<close>

record Prop =
  player_name :: "string option"
  prop_type :: "string option"
  line :: "rat option"
  prizepicks_odds :: "rat option"
  pinnacle_over :: "rat option"
  pinnacle_under :: "rat option"
  no_vig_over :: "rat option"
  no_vig_under :: "rat option"

text \<open>
  A scalar of the parsed JSON body: \<^verbatim>\<open>null\<close> (also standing for an absent key), a
  number or a string.
\<close>

datatype js_value = JNull | JNum rat | JStr string

text \<open>
  \<^verbatim>\<open>interface PropsData { props: Prop[]; disclaimer?: string; last_updated: string;
    status?: string }\<close>
  \<open>props\<close> is read through \<^verbatim>\<open>data?.props?.filter\<close>, so it may be missing; \<open>last_updated\<close>
  is declared a string and used as a number, so it is kept as a scalar of either kind.
\<close>

record PropsData =
  props :: "Prop list option"
  disclaimer :: "string option"
  last_updated :: js_value
  status :: "string option"

text \<open>
  Built-ins of the language whose result depends on the engine's number formatting or on
  the locale are parameters of the model: \<open>Number_toString\<close> is the decimal or exponent
  form of a number, \<open>StringToNumber\<close> the numeric value of a string (\<open>None\<close> when it
  is not a finite number), \<open>toLocaleTimeString\<close> the local time of day of a Date given by
  its time value in milliseconds since the epoch (\<open>None\<close> for an invalid Date).
\<close>

record runtime =
  Number_toString :: "rat \<Rightarrow> string"
  StringToNumber :: "string \<Rightarrow> rat option"
  toLocaleTimeString :: "int option \<Rightarrow> string"

subsection \<open>The query function\<close>

text \<open>Truthiness of a scalar, as \<^verbatim>\<open>if (data.last_updated)\<close> tests it.\<close>

fun truthy :: "js_value \<Rightarrow> bool" where
  "truthy JNull = False"
| "truthy (JNum r) = (r \<noteq> 0)"
| "truthy (JStr s) = (s \<noteq> [])"

text \<open>\<^verbatim>\<open>ToNumber\<close>, applied by \<^verbatim>\<open>*\<close> to its operands; \<open>None\<close> is a non-finite number.\<close>

fun ToNumber :: "runtime \<Rightarrow> js_value \<Rightarrow> rat option" where
  "ToNumber rt JNull = Some 0"
| "ToNumber rt (JNum r) = Some r"
| "ToNumber rt (JStr s) = StringToNumber rt s"

text \<open>
  \<^verbatim>\<open>new Date(value)\<close> for a number: the time value is the number truncated to an integer,
  or invalid when the number is not finite or beyond 8.64e15 milliseconds.
\<close>

definition new_Date :: "rat option \<Rightarrow> int option" where
  "new_Date v =
     (case v of
        None \<Rightarrow> None
      | Some ms \<Rightarrow>
          if \<bar>ms\<bar> > 8640000000000000 then None
          else Some (if ms < 0 then - \<lfloor>- ms\<rfloor> else \<lfloor>ms\<rfloor>))"

text \<open>
  \<^verbatim>\<open>if (data.last_updated) {
    setLastUpdated(new Date(data.last_updated * 1000).toLocaleTimeString())
  }\<close>
\<close>

definition update_lastUpdated :: "runtime \<Rightarrow> PropsData \<Rightarrow> ui_state \<Rightarrow> ui_state" where
  "update_lastUpdated rt data st =
     (if truthy (last_updated data)
      then st\<lparr>lastUpdated :=
             toLocaleTimeString rt
               (new_Date (map_option (\<lambda>v. v * 1000) (ToNumber rt (last_updated data))))\<rparr>
      else st)"

text \<open>
  The response of \<^verbatim>\<open>fetch\<close>: its \<open>ok\<close> flag and its parsed body.
  \<^verbatim>\<open>if (!response.ok) { throw new Error('Network response was not ok') }
  const data = await response.json()
  ...
  return data\<close>
\<close>

record response =
  ok :: bool
  json :: PropsData

definition queryFn :: "runtime \<Rightarrow> response \<Rightarrow> ui_state \<Rightarrow> js_error + (PropsData \<times> ui_state)" where
  "queryFn rt r st =
     (if \<not> ok r then Inl NetworkError
      else Inr (json r, update_lastUpdated rt (json r) st))"

subsection \<open>Filtering\<close>

text \<open>\<^verbatim>\<open>String.prototype.toLowerCase\<close> on the ASCII letters; other characters are kept.\<close>

definition toLowerCase :: "string \<Rightarrow> string" where
  "toLowerCase s =
     map (\<lambda>c. if CHR ''A'' \<le> c \<and> c \<le> CHR ''Z'' then char_of (of_char c + (32::nat)) else c) s"

text \<open>\<^verbatim>\<open>s.includes(t)\<close>: \<open>t\<close> occurs in \<open>s\<close> as a contiguous substring.\<close>

fun String_includes :: "string \<Rightarrow> string \<Rightarrow> bool" where
  "String_includes [] t = (t = [])"
| "String_includes (c # s) t = (prefix t (c # s) \<or> String_includes s t)"

text \<open>
  \<^verbatim>\<open>prop => prop.player_name.toLowerCase().includes(searchTerm.toLowerCase()) &&
    (selectedPropType === 'all' || prop.prop_type === selectedPropType)\<close>
  The method call on a \<^verbatim>\<open>null\<close> name throws.
\<close>

definition filter_predicate :: "ui_state \<Rightarrow> Prop \<Rightarrow> js_error + bool" where
  "filter_predicate st prop =
     (case player_name prop of
        None \<Rightarrow> Inl TypeError
      | Some name \<Rightarrow>
          Inr (String_includes (toLowerCase name) (toLowerCase (searchTerm st)) \<and>
               (selectedPropType st = ''all'' \<or> prop_type prop = Some (selectedPropType st))))"

text \<open>\<^verbatim>\<open>Array.prototype.filter\<close> with a callback that may throw.\<close>

fun Array_filter :: "('a \<Rightarrow> js_error + bool) \<Rightarrow> 'a list \<Rightarrow> js_error + 'a list" where
  "Array_filter p [] = Inr []"
| "Array_filter p (x # xs) =
     (case p x of
        Inl e \<Rightarrow> Inl e
      | Inr keep \<Rightarrow>
          (case Array_filter p xs of
             Inl e \<Rightarrow> Inl e
           | Inr ys \<Rightarrow> Inr (if keep then x # ys else ys)))"

subsection \<open>Sorting\<close>

text \<open>
  \<^verbatim>\<open>if (aValue === null) return 1
  if (bValue === null) return -1
  const comparison = aValue < bValue ? -1 : aValue > bValue ? 1 : 0
  return sortDirection === 'asc' ? comparison : -comparison\<close>
  Both values come from the same field, so they are two strings (compared by code unit,
  lexicographically) or two numbers.
\<close>

definition compare_values :: "'a::linorder option \<Rightarrow> 'a option \<Rightarrow> SortDirection \<Rightarrow> int" where
  "compare_values aValue bValue dir =
     (case aValue of
        None \<Rightarrow> 1
      | Some a \<Rightarrow>
          (case bValue of
             None \<Rightarrow> - 1
           | Some b \<Rightarrow>
               (let comparison = (if a < b then - 1 else if a > b then 1 else 0)
                in if dir = Asc then comparison else - comparison)))"

text \<open>\<^verbatim>\<open>(a, b) => { const aValue = a[sortField]; const bValue = b[sortField]; ... }\<close>\<close>

definition comparator :: "ui_state \<Rightarrow> Prop \<Rightarrow> Prop \<Rightarrow> int" where
  "comparator st a b =
     (case sortField st of
        F_player_name \<Rightarrow> compare_values (player_name a) (player_name b) (sortDirection st)
      | F_prop_type \<Rightarrow> compare_values (prop_type a) (prop_type b) (sortDirection st)
      | F_line \<Rightarrow> compare_values (line a) (line b) (sortDirection st)
      | F_prizepicks_odds \<Rightarrow>
          compare_values (prizepicks_odds a) (prizepicks_odds b) (sortDirection st)
      | F_pinnacle_over \<Rightarrow> compare_values (pinnacle_over a) (pinnacle_over b) (sortDirection st)
      | F_pinnacle_under \<Rightarrow>
          compare_values (pinnacle_under a) (pinnacle_under b) (sortDirection st)
      | F_no_vig_over \<Rightarrow> compare_values (no_vig_over a) (no_vig_over b) (sortDirection st)
      | F_no_vig_under \<Rightarrow> compare_values (no_vig_under a) (no_vig_under b) (sortDirection st))"

text \<open>\<open>a[field] === null\<close>.\<close>

definition is_null_at :: "SortField \<Rightarrow> Prop \<Rightarrow> bool" where
  "is_null_at field a =
     (case field of
        F_player_name \<Rightarrow> player_name a = None
      | F_prop_type \<Rightarrow> prop_type a = None
      | F_line \<Rightarrow> line a = None
      | F_prizepicks_odds \<Rightarrow> prizepicks_odds a = None
      | F_pinnacle_over \<Rightarrow> pinnacle_over a = None
      | F_pinnacle_under \<Rightarrow> pinnacle_under a = None
      | F_no_vig_over \<Rightarrow> no_vig_over a = None
      | F_no_vig_under \<Rightarrow> no_vig_under a = None)"

text \<open>
  \<^verbatim>\<open>Array.prototype.sort(comparefn)\<close>. The language requires a stable sort and leaves the
  order to the engine when the comparison function is not consistent, which this one is
  not on two \<^verbatim>\<open>null\<close> values (each is reported greater than the other). The engines
  sort by merging sorted runs; the model is a stable merge sort that takes the right
  element only when the comparison function reports it smaller than the left one.
\<close>

fun merge_runs :: "('a \<Rightarrow> 'a \<Rightarrow> int) \<Rightarrow> 'a list \<Rightarrow> 'a list \<Rightarrow> 'a list" where
  "merge_runs cmp [] ys = ys"
| "merge_runs cmp (x # xs) [] = x # xs"
| "merge_runs cmp (x # xs) (y # ys) =
     (if cmp y x < 0 then y # merge_runs cmp (x # xs) ys
      else x # merge_runs cmp xs (y # ys))"

function Array_sort :: "('a \<Rightarrow> 'a \<Rightarrow> int) \<Rightarrow> 'a list \<Rightarrow> 'a list" where
  "Array_sort cmp xs =
     (if length xs \<le> 1 then xs
      else merge_runs cmp
             (Array_sort cmp (take (length xs div 2) xs))
             (Array_sort cmp (drop (length xs div 2) xs)))"
  by pat_completeness auto
termination
  by (relation "measure (\<lambda>(cmp, xs). length xs)") auto

text \<open>
  \<^verbatim>\<open>const filteredAndSortedData = data?.props?.filter(...).sort(...)\<close>:
  \<^verbatim>\<open>undefined\<close> (\<open>None\<close>) while there is no data or no \<open>props\<close>.
\<close>

definition filteredAndSortedData :: "PropsData option \<Rightarrow> ui_state \<Rightarrow> js_error + Prop list option" where
  "filteredAndSortedData data st =
     (case data of
        None \<Rightarrow> Inr None
      | Some d \<Rightarrow>
          (case props d of
             None \<Rightarrow> Inr None
           | Some ps \<Rightarrow>
               (case Array_filter (filter_predicate st) ps of
                  Inl e \<Rightarrow> Inl e
                | Inr fs \<Rightarrow> Inr (Some (Array_sort (comparator st) fs)))))"

subsection \<open>Number formatting\<close>

text \<open>The decimal digits of a natural number, without leading zeros (\<open>0\<close> is \<^verbatim>\<open>"0"\<close>).\<close>

definition digit_char :: "nat \<Rightarrow> char" where
  "digit_char d = char_of (48 + d)"

function digits_of :: "nat \<Rightarrow> string" where
  "digits_of n =
     (if n < 10 then [digit_char n] else digits_of (n div 10) @ [digit_char (n mod 10)])"
  by pat_completeness auto
termination
  by (relation "measure id") auto

text \<open>
  \<^verbatim>\<open>Number.prototype.toFixed(fractionDigits)\<close>, following the steps of the language
  standard: the sign is split off; at \<open>10^21\<close> and above the result is the number's
  ordinary string form; below, \<open>n\<close> is the integer for which \<open>n / 10^f - x\<close> is closest to
  zero (the larger one of two), its digits are padded with zeros to \<open>f + 1\<close> characters
  and the point is put before the last \<open>f\<close>. Every call of the source passes \<open>2\<close>, inside
  the range where the standard raises no RangeError.
\<close>

definition toFixed :: "runtime \<Rightarrow> rat \<Rightarrow> nat \<Rightarrow> string" where
  "toFixed rt x0 f =
     (let s = (if x0 < 0 then ''-'' else []);
          x = (if x0 < 0 then - x0 else x0)
      in if x \<ge> 10 ^ 21 then s @ Number_toString rt x
         else
           (let n = nat \<lfloor>x * 10 ^ f + 1 / 2\<rfloor>;
                m = digits_of n;
                m = (if f \<noteq> 0
                     then (let k = length m;
                               m = (if k \<le> f then replicate (f + 1 - k) CHR ''0'' @ m else m);
                               k = length m
                           in take (k - f) m @ ''.'' @ drop (k - f) m)
                     else m)
            in s @ m))"

subsection \<open>Rendering\<close>

text \<open>
  What a table cell is given as its child: a string, a number (shown by the framework in
  its ordinary string form) or \<^verbatim>\<open>null\<close>, which shows nothing.
\<close>

datatype child = Text string | Number rat | Nothing

definition string_child :: "string option \<Rightarrow> child" where
  "string_child v = (case v of None \<Rightarrow> Nothing | Some s \<Rightarrow> Text s)"

definition number_child :: "rat option \<Rightarrow> child" where
  "number_child v = (case v of None \<Rightarrow> Nothing | Some r \<Rightarrow> Number r)"

text \<open>
  A chip of \<^verbatim>\<open>OddsComparison\<close>: \<open>better\<close> chooses the icon (\<^verbatim>\<open>TrendingUpIcon\<close> or
  \<^verbatim>\<open>TrendingDownIcon\<close>) and the colour (\<^verbatim>\<open>success\<close> or \<^verbatim>\<open>error\<close>).
\<close>

record Chip =
  better :: bool
  label :: string
  tooltip :: string

text \<open>The operands of \<^verbatim>\<open>-\<close> go through \<^verbatim>\<open>ToNumber\<close>, which takes \<^verbatim>\<open>null\<close> to 0.\<close>

definition js_minus :: "rat option \<Rightarrow> rat option \<Rightarrow> rat" where
  "js_minus a b = (case a of None \<Rightarrow> 0 | Some x \<Rightarrow> x) - (case b of None \<Rightarrow> 0 | Some y \<Rightarrow> y)"

text \<open>
  \<^verbatim>\<open>function OddsComparison({ prizepicks, pinnacleOver, pinnacleUnder }) {
    const overDiff = prizepicks - pinnacleOver
    const underDiff = prizepicks - pinnacleUnder
    const isOverBetter = overDiff > 0
    const isUnderBetter = underDiff > 0
    ... title={`Over: ${isOverBetter ? 'Better' : 'Worse'} by ${Math.abs(overDiff).toFixed(2)}`}
    ... label={`O ${isOverBetter ? '+' : ''}${overDiff.toFixed(2)}`}
    ... title={`Under: ${isUnderBetter ? 'Better' : 'Worse'} by ${Math.abs(underDiff).toFixed(2)}`}
    ... label={`U ${isUnderBetter ? '+' : ''}${underDiff.toFixed(2)}`} }\<close>
\<close>

definition comparison_chip :: "runtime \<Rightarrow> string \<Rightarrow> string \<Rightarrow> rat \<Rightarrow> Chip" where
  "comparison_chip rt name letter diff =
     (let isBetter = (diff > 0)
      in \<lparr>better = isBetter,
          label = letter @ '' '' @ (if isBetter then ''+'' else []) @ toFixed rt diff 2,
          tooltip = name @ '': '' @ (if isBetter then ''Better'' else ''Worse'') @ '' by '' @
                    toFixed rt \<bar>diff\<bar> 2\<rparr>)"

definition OddsComparison :: "runtime \<Rightarrow> rat option \<Rightarrow> rat option \<Rightarrow> rat option \<Rightarrow> Chip \<times> Chip" where
  "OddsComparison rt prizepicks pinnacleOver pinnacleUnder =
     (let overDiff = js_minus prizepicks pinnacleOver;
          underDiff = js_minus prizepicks pinnacleUnder
      in (comparison_chip rt ''Over'' ''O'' overDiff,
          comparison_chip rt ''Under'' ''U'' underDiff))"

text \<open>
  One \<^verbatim>\<open>TableRow\<close> of the table body:
  \<^verbatim>\<open><TableCell>{prop.player_name}</TableCell>
  <TableCell>{prop.prop_type}</TableCell>
  <TableCell align="right">{prop.line}</TableCell>
  <TableCell align="right">{prop.prizepicks_odds}</TableCell>
  <TableCell align="right">{prop.pinnacle_over.toFixed(2)}</TableCell>
  <TableCell align="right">{prop.pinnacle_under.toFixed(2)}</TableCell>
  <TableCell align="right">{prop.no_vig_over.toFixed(2)}</TableCell>
  <TableCell align="right">{prop.no_vig_under.toFixed(2)}</TableCell>
  <TableCell align="center"><OddsComparison ... /></TableCell>\<close>
\<close>

record Row =
  cell_player_name :: child
  cell_prop_type :: child
  cell_line :: child
  cell_prizepicks_odds :: child
  cell_pinnacle_over :: string
  cell_pinnacle_under :: string
  cell_no_vig_over :: string
  cell_no_vig_under :: string
  cell_comparison :: "Chip \<times> Chip"

text \<open>\<^verbatim>\<open>v.toFixed(2)\<close> on a field: the method call on \<^verbatim>\<open>null\<close> throws.\<close>

definition field_toFixed :: "runtime \<Rightarrow> rat option \<Rightarrow> js_error + string" where
  "field_toFixed rt v = (case v of None \<Rightarrow> Inl TypeError | Some x \<Rightarrow> Inr (toFixed rt x 2))"

definition render_row :: "runtime \<Rightarrow> Prop \<Rightarrow> js_error + Row" where
  "render_row rt prop =
     (case field_toFixed rt (pinnacle_over prop) of Inl e \<Rightarrow> Inl e | Inr po \<Rightarrow>
      case field_toFixed rt (pinnacle_under prop) of Inl e \<Rightarrow> Inl e | Inr pu \<Rightarrow>
      case field_toFixed rt (no_vig_over prop) of Inl e \<Rightarrow> Inl e | Inr nvo \<Rightarrow>
      case field_toFixed rt (no_vig_under prop) of Inl e \<Rightarrow> Inl e | Inr nvu \<Rightarrow>
        Inr \<lparr>cell_player_name = string_child (player_name prop),
             cell_prop_type = string_child (prop_type prop),
             cell_line = number_child (line prop),
             cell_prizepicks_odds = number_child (prizepicks_odds prop),
             cell_pinnacle_over = po,
             cell_pinnacle_under = pu,
             cell_no_vig_over = nvo,
             cell_no_vig_under = nvu,
             cell_comparison =
               OddsComparison rt (prizepicks_odds prop) (pinnacle_over prop)
                 (pinnacle_under prop)\<rparr>)"

text \<open>\<^verbatim>\<open>Array.prototype.map\<close> with a callback that may throw.\<close>

fun Array_map :: "('a \<Rightarrow> js_error + 'b) \<Rightarrow> 'a list \<Rightarrow> js_error + 'b list" where
  "Array_map f [] = Inr []"
| "Array_map f (x # xs) =
     (case f x of
        Inl e \<Rightarrow> Inl e
      | Inr y \<Rightarrow> (case Array_map f xs of Inl e \<Rightarrow> Inl e | Inr ys \<Rightarrow> Inr (y # ys)))"

text \<open>
  \<^verbatim>\<open><TableBody>{filteredAndSortedData?.map((prop, index) => (<TableRow ...>))}</TableBody>\<close>
\<close>

definition table_rows :: "runtime \<Rightarrow> PropsData option \<Rightarrow> ui_state \<Rightarrow> js_error + Row list" where
  "table_rows rt data st =
     (case filteredAndSortedData data st of
        Inl e \<Rightarrow> Inl e
      | Inr None \<Rightarrow> Inr []
      | Inr (Some ps) \<Rightarrow> Array_map (render_row rt) ps)"

text \<open>
  The options of the prop-type \<^verbatim>\<open>Select\<close>, as (value, label) in the order of the
  source.
\<close>

definition prop_type_menu :: "(string \<times> string) list" where
  "prop_type_menu =
     [(''all'', ''All Props''),
      (''Strikeouts'', ''Strikeouts''),
      (''Hits'', ''Hits''),
      (''Total Bases'', ''Total Bases''),
      (''RBI'', ''RBI''),
      (''Home Runs'', ''Home Runs''),
      (''Walks'', ''Walks''),
      (''Stolen Bases'', ''Stolen Bases''),
      (''Pitching Strikeouts'', ''Pitching Strikeouts''),
      (''Earned Runs'', ''Earned Runs''),
      (''Innings Pitched'', ''Innings Pitched'')]"

section \<open>The pipeline behind the endpoint\<close>

text \<open>
  The odds converter, the matcher and the serving shell are not among the source files;
  the definitions of this section follow the specification's description of them.
\<close>

subsection \<open>OddsConverter\<close>

datatype odds_error = InvalidOddsError | InvalidMarketError

text \<open>
  Modelled from the spec: \<open>american_to_decimal\<close> of the OddsConverter (the converter's
  source is missing). For odds of at least 100 the result is \<open>1 + odds/100\<close>, for odds
  of at most -100 it is \<open>1 + 100/|odds|\<close>, and odds strictly between -100 and 100 fail
  with \<open>InvalidOddsError\<close>. Decimal odds are exact rationals.
\<close>

definition american_to_decimal :: "int \<Rightarrow> odds_error + rat" where
  "american_to_decimal odds =
     (if odds \<ge> 100 then Inr (1 + of_int odds / 100)
      else if odds \<le> - 100 then Inr (1 + 100 / of_int \<bar>odds\<bar>)
      else Inl InvalidOddsError)"

text \<open>
  Modelled from the spec: \<open>decimal_to_implied_prob\<close> of the OddsConverter (source
  missing): \<open>1 / decimal_odds\<close>, requiring \<open>decimal_odds > 1\<close>.
\<close>

definition decimal_to_implied_prob :: "rat \<Rightarrow> odds_error + rat" where
  "decimal_to_implied_prob decimal_odds =
     (if decimal_odds > 1 then Inr (1 / decimal_odds) else Inl InvalidOddsError)"

text \<open>
  Modelled from the spec: the converter computes on floats, which are IEEE doubles. A double
  is modelled by the rational it denotes, and every arithmetic operation of
  \<open>no_vig_probabilities\<close> by the exact operation followed by rounding to the nearest
  double, a tie going to the even significand. \<open>exponent x\<close> is the binary exponent of a
  positive \<open>x\<close> (\<open>2^e \<le> x < 2^(e+1)\<close>), \<open>ulp_of x\<close> the spacing of the doubles around \<open>x\<close>
  (53 significant bits, exponents from -1022, below that the subnormal spacing
  \<open>2^-1074\<close>). Magnitudes of \<open>2^1024\<close> and more, which round to infinity, are not doubles;
  the converter's intermediate values are at most 2.
\<close>

function expo_up :: "rat \<Rightarrow> int" where
  "expo_up x = (if x < 2 then 0 else expo_up (x / 2) + 1)"
  by pat_completeness auto
termination
proof (relation "measure (\<lambda>x. nat \<lfloor>x\<rfloor>)")
  show "wf (measure (\<lambda>x::rat. nat \<lfloor>x\<rfloor>))" by simp
next
  fix x :: rat
  assume "\<not> x < 2"
  then have "x / 2 \<le> x - 1" by simp
  then have "\<lfloor>x / 2\<rfloor> \<le> \<lfloor>x - 1\<rfloor>" by (rule floor_mono)
  moreover have "2 \<le> \<lfloor>x\<rfloor>" using \<open>\<not> x < 2\<close> by (simp add: le_floor_iff)
  ultimately show "(x / 2, x) \<in> measure (\<lambda>x. nat \<lfloor>x\<rfloor>)" by simp
qed

function expo_down :: "rat \<Rightarrow> int" where
  "expo_down x = (if x \<le> 0 \<or> 1 \<le> x then 0 else expo_down (2 * x) - 1)"
  by pat_completeness auto
termination
proof (relation "measure (\<lambda>x. nat \<lceil>1 / x\<rceil>)")
  show "wf (measure (\<lambda>x::rat. nat \<lceil>1 / x\<rceil>))" by simp
next
  fix x :: rat
  assume a: "\<not> (x \<le> 0 \<or> 1 \<le> x)"
  then have x: "0 < x" "x < 1" by simp_all
  define y where "y = 1 / x"
  have y: "1 < y" using x by (simp add: y_def)
  have half: "1 / (2 * x) = y / 2" by (simp add: y_def)
  have "\<lceil>y / 2\<rceil> < \<lceil>y\<rceil>"
  proof (cases "y \<le> 2")
    case True
    then have "\<lceil>y / 2\<rceil> \<le> 1" by (simp add: ceiling_le_iff)
    moreover have "2 \<le> \<lceil>y\<rceil>" using y by (simp add: le_ceiling_iff)
    ultimately show ?thesis by linarith
  next
    case False
    then have "y / 2 \<le> y - 1" by simp
    then have "\<lceil>y / 2\<rceil> \<le> \<lceil>y - 1\<rceil>" by (rule ceiling_mono)
    then show ?thesis by simp
  qed
  moreover have "0 < \<lceil>y\<rceil>" using y by (simp add: less_ceiling_iff)
  ultimately show "(2 * x, x) \<in> measure (\<lambda>x. nat \<lceil>1 / x\<rceil>)"
    by (simp add: half flip: y_def)
qed

declare expo_up.simps [simp del]
declare expo_down.simps [simp del]

definition exponent :: "rat \<Rightarrow> int" where
  "exponent x = (if 1 \<le> x then expo_up x else expo_down x)"

definition round_half_even :: "rat \<Rightarrow> int" where
  "round_half_even y =
     (let f = \<lfloor>y\<rfloor>; r = y - of_int f
      in if r < 1 / 2 then f else if r > 1 / 2 then f + 1 else if even f then f else f + 1)"

definition ulp_of :: "rat \<Rightarrow> rat" where
  "ulp_of x = 2 powi (max (exponent \<bar>x\<bar>) (- 1022) - 52)"

definition round_to_double :: "rat \<Rightarrow> rat" where
  "round_to_double x =
     (if x = 0 then 0
      else sgn x * of_int (round_half_even (\<bar>x\<bar> / ulp_of x)) * ulp_of x)"

definition is_double :: "rat \<Rightarrow> bool" where
  "is_double x = (round_to_double x = x \<and> \<bar>x\<bar> < 2 ^ 1024)"

text \<open>
  Modelled from the spec: \<open>no_vig_probabilities\<close> of the OddsConverter (source missing).
  The raw implied probabilities are \<open>p_o = 1/over_decimal\<close> and \<open>p_u = 1/under_decimal\<close>,
  the results \<open>p_o / (p_o + p_u)\<close> and \<open>p_u / (p_o + p_u)\<close>, each operation a double
  operation; it fails with \<open>InvalidMarketError\<close> when either input is at most 1 or
  \<open>p_o + p_u \<le> 0\<close>.
\<close>

definition no_vig_probabilities :: "rat \<Rightarrow> rat \<Rightarrow> odds_error + (rat \<times> rat)" where
  "no_vig_probabilities over_decimal under_decimal =
     (if over_decimal \<le> 1 \<or> under_decimal \<le> 1 then Inl InvalidMarketError
      else
        (let p_o = round_to_double (1 / over_decimal);
             p_u = round_to_double (1 / under_decimal);
             total = round_to_double (p_o + p_u)
         in if total \<le> 0 then Inl InvalidMarketError
            else Inr (round_to_double (p_o / total), round_to_double (p_u / total))))"

subsection \<open>PropMatcher\<close>

datatype Side = Side_over | Side_under | Side_single

datatype Source = Retail | Reference

text \<open>
  Modelled from the spec: the RawProp record of the data model (the fetchers that produce
  it are missing). The odds are a rational, which holds the American integers of the data
  model as well as the decimal prices of the specification's matching example.
\<close>

record RawProp =
  rp_player_name :: string
  rp_prop_type :: string
  rp_line :: rat
  rp_side :: Side
  rp_odds :: rat
  rp_source :: Source

text \<open>
  Modelled from the spec: the MatchKey (matcher source missing): the player name and the
  prop type compared without regard to case and whitespace, the line compared exactly.
\<close>

type_synonym MatchKey = "string \<times> string \<times> rat"

definition is_whitespace :: "char \<Rightarrow> bool" where
  "is_whitespace c = (c \<in> set [CHR '' '', CHR 0x09, CHR 0x0A, CHR 0x0D])"

definition normalize :: "string \<Rightarrow> string" where
  "normalize s = filter (\<lambda>c. \<not> is_whitespace c) (toLowerCase s)"

definition match_key :: "RawProp \<Rightarrow> MatchKey" where
  "match_key r = (normalize (rp_player_name r), normalize (rp_prop_type r), rp_line r)"

text \<open>
  Modelled from the spec: the reference records grouped by MatchKey (matcher source
  missing). A group is kept when it has exactly one over and one under entry; a group
  with a missing side, a duplicate side or more than two entries is dropped.
\<close>

definition reference_group :: "RawProp list \<Rightarrow> MatchKey \<Rightarrow> RawProp list" where
  "reference_group reference k = filter (\<lambda>r. match_key r = k) reference"

definition complete_group :: "RawProp list \<Rightarrow> (RawProp \<times> RawProp) option" where
  "complete_group g =
     (case (filter (\<lambda>r. rp_side r = Side_over) g, filter (\<lambda>r. rp_side r = Side_under) g) of
        ([ov], [un]) \<Rightarrow> if length g = 2 then Some (ov, un) else None
      | _ \<Rightarrow> None)"

text \<open>
  Modelled from the spec: the retail records indexed by MatchKey (matcher source
  missing); of two records with one key the last seen wins, at the place of the first.
\<close>

definition retail_index :: "RawProp list \<Rightarrow> (MatchKey \<times> RawProp) list" where
  "retail_index retail = foldl (\<lambda>idx r. AList.update (match_key r) r idx) [] retail"

text \<open>
  Modelled from the spec: \<open>match\<close> of the PropMatcher (source missing): one triple for
  every retail key present in the index of kept reference groups, in the order of the
  retail records.
\<close>

definition match :: "RawProp list \<Rightarrow> RawProp list \<Rightarrow> (RawProp \<times> RawProp \<times> RawProp) list" where
  "match retail reference =
     List.map_filter
       (\<lambda>(k, r). map_option (\<lambda>(ov, un). (r, ov, un))
                   (complete_group (reference_group reference k)))
       (retail_index retail)"

subsection \<open>The snapshot and its serialization\<close>




datatype json =
    JSNull | JSNum rat | JSStr string | JSArr "json list" | JSObj "(string \<times> json) list"













text \<open>
  Modelled from the spec: the canonical prop-type vocabulary that both fetchers (missing)
  must emit, in the order the specification lists it.
\<close>

definition canonical_prop_types :: "string list" where
  "canonical_prop_types =
     [''Strikeouts'', ''Hits'', ''Total Bases'', ''RBI'', ''Home Runs'', ''Walks'',
      ''Stolen Bases'', ''Pitching Strikeouts'', ''Earned Runs'', ''Innings Pitched'']"

section \<open>Notions used in the statements\<close>

text \<open>
  Reading a displayed number back: the value of a decimal digit, of a string of digits
  (\<open>None\<close> on any other character), of a non-empty string of digits, and of a string of
  the form \<^verbatim>\<open>-?d+.dd\<close>, that is an optional sign, digits, a point and exactly two digits.
\<close>

definition digit_value :: "char \<Rightarrow> nat option" where
  "digit_value c =
     (if CHR ''0'' \<le> c \<and> c \<le> CHR ''9'' then Some (of_char c - 48) else None)"

fun read_digits :: "string \<Rightarrow> nat \<Rightarrow> nat option" where
  "read_digits [] acc = Some acc"
| "read_digits (c # cs) acc =
     (case digit_value c of None \<Rightarrow> None | Some d \<Rightarrow> read_digits cs (10 * acc + d))"

definition read_nat :: "string \<Rightarrow> nat option" where
  "read_nat s = (if s = [] then None else read_digits s 0)"

definition read_fixed2 :: "string \<Rightarrow> rat option" where
  "read_fixed2 s =
     (let negative = (s \<noteq> [] \<and> hd s = CHR ''-'');
          body = (if negative then tl s else s);
          k = length body
      in if k < 4 \<or> body ! (k - 3) \<noteq> CHR ''.'' then None
         else
           (case (read_nat (take (k - 3) body), read_nat (drop (k - 2) body)) of
              (Some a, Some b) \<Rightarrow>
                Some ((if negative then - 1 else 1) * (of_nat a + of_nat b / 100))
            | _ \<Rightarrow> None))"

text \<open>A rational rounded to two decimal places, a tie going away from zero.\<close>

definition round2 :: "rat \<Rightarrow> rat" where
  "round2 x = sgn x * of_int \<lfloor>\<bar>x\<bar> * 100 + 1 / 2\<rfloor> / 100"

text \<open>
  In a list, no entry satisfying \<open>P\<close> is followed by one that does not: the entries with
  \<open>P\<close> come last.
\<close>

fun nulls_last :: "('a \<Rightarrow> bool) \<Rightarrow> 'a list \<Rightarrow> bool" where
  "nulls_last P [] = True"
| "nulls_last P (x # xs) = (if P x then list_all P xs else nulls_last P xs)"

text \<open>
  The matcher's condition on the reference records of one key, written out: exactly two
  records, one of them over and one under.
\<close>

definition one_over_one_under :: "RawProp list \<Rightarrow> MatchKey \<Rightarrow> bool" where
  "one_over_one_under reference k =
     (length (reference_group reference k) = 2 \<and>
      length (filter (\<lambda>r. rp_side r = Side_over) (reference_group reference k)) = 1 \<and>
      length (filter (\<lambda>r. rp_side r = Side_under) (reference_group reference k)) = 1)"

subsection \<open>Concrete inputs\<close>

text \<open>
  A runtime for evaluating the model at concrete inputs: the string form of a number is
  given at \<open>10^21\<close> only (where it is \<^verbatim>\<open>1e+21\<close>), a string of decimal digits has its
  numeric value, and the time of day is shown in UTC as \<^verbatim>\<open>HH:MM:SS\<close>.
\<close>

definition two_digits :: "nat \<Rightarrow> string" where
  "two_digits n = (if n < 10 then ''0'' else []) @ digits_of n"

definition utc_time_of_day :: "int \<Rightarrow> string" where
  "utc_time_of_day ms =
     (let s = nat ((ms div 1000) mod 86400)
      in two_digits (s div 3600) @ '':'' @ two_digits (s div 60 mod 60) @ '':'' @
         two_digits (s mod 60))"

definition example_runtime :: runtime where
  "example_runtime =
     \<lparr>Number_toString = (\<lambda>x. if x = 10 ^ 21 then ''1e+21'' else []),
      StringToNumber = (\<lambda>s. map_option of_nat (read_nat s)),
      toLocaleTimeString =
        (\<lambda>t. case t of None \<Rightarrow> ''Invalid Date'' | Some ms \<Rightarrow> utc_time_of_day ms)\<rparr>"

definition example_prop :: "string \<Rightarrow> rat option \<Rightarrow> rat option \<Rightarrow> Prop" where
  "example_prop name over nv_over =
     \<lparr>player_name = Some name, prop_type = Some ''Hits'', line = Some (3 / 2),
      prizepicks_odds = Some (- 110), pinnacle_over = over, pinnacle_under = Some (21 / 10),
      no_vig_over = nv_over, no_vig_under = Some (1 / 2)\<rparr>"

definition example_data :: "Prop list \<Rightarrow> js_value \<Rightarrow> string option \<Rightarrow> string option \<Rightarrow> PropsData" where
  "example_data ps updated st disc =
     \<lparr>props = Some ps, disclaimer = disc, last_updated = updated, status = st\<rparr>"

definition example_raw :: "string \<Rightarrow> string \<Rightarrow> rat \<Rightarrow> Side \<Rightarrow> rat \<Rightarrow> Source \<Rightarrow> RawProp" where
  "example_raw name ptype lin sd price src =
     \<lparr>rp_player_name = name, rp_prop_type = ptype, rp_line = lin, rp_side = sd,
      rp_odds = price, rp_source = src\<rparr>"


text \<open>The records of the specification's matching example.\<close>

definition alice_retail :: RawProp where
  "alice_retail = example_raw ''Alice'' ''Hits'' (3 / 2) Side_single (- 110) Retail"

definition alice_over :: RawProp where
  "alice_over = example_raw ''Alice'' ''Hits'' (3 / 2) Side_over (9 / 5) Reference"

definition alice_under :: RawProp where
  "alice_under = example_raw ''Alice'' ''Hits'' (3 / 2) Side_under (21 / 10) Reference"

text \<open>A response with one record, and the table row it is rendered as.\<close>

definition example_row :: Row where
  "example_row =
     \<lparr>cell_player_name = Text ''Alice'', cell_prop_type = Text ''Hits'',
         cell_line = Number (3 / 2), cell_prizepicks_odds = Number (- 110),
         cell_pinnacle_over = ''1.80'', cell_pinnacle_under = ''2.10'',
         cell_no_vig_over = ''0.54'', cell_no_vig_under = ''0.50'',
         cell_comparison =
           (\<lparr>better = False, label = ''O -111.80'', tooltip = ''Over: Worse by 111.80''\<rparr>,
            \<lparr>better = False, label = ''U -112.10'', tooltip = ''Under: Worse by 112.10''\<rparr>)\<rparr>"

definition example_response :: PropsData where
  "example_response =
     example_data [example_prop ''Alice'' (Some (9 / 5)) (Some (7 / 13))]
       (JNum 1700000000) (Some ''ok'') None"

declare Array_sort.simps [simp del]

declare digits_of.simps [simp del]

section \<open>Properties of the sort state\<close>

text \<open>
  C10. \<open>handleSort field\<close> toggles the direction between \<open>asc\<close> and \<open>desc\<close> and leaves the
  sort field (and everything else) unchanged when \<open>field\<close> is the active sort field;
  otherwise it makes \<open>field\<close> the sort field with direction \<open>asc\<close>. Consequently two
  calls with the currently active field restore the original state.
\<close>

theorem handleSort_toggle_involution:
  "(field = sortField st \<longrightarrow>
      sortField (handleSort field st) = sortField st \<and>
      sortDirection (handleSort field st) = (if sortDirection st = Asc then Desc else Asc) \<and>
      sortDirection (handleSort field st) \<noteq> sortDirection st) \<and>
   (field \<noteq> sortField st \<longrightarrow>
      sortField (handleSort field st) = field \<and>
      sortDirection (handleSort field st) = Asc) \<and>
   searchTerm (handleSort field st) = searchTerm st \<and>
   selectedPropType (handleSort field st) = selectedPropType st \<and>
   lastUpdated (handleSort field st) = lastUpdated st \<and>
   handleSort (sortField st) (handleSort (sortField st) st) = st"
  by (cases "sortDirection st") (simp_all add: handleSort_def)

theorem handleSort_toggle_involution_witness:
  "sortDirection (handleSort F_no_vig_over initial_state) = Asc \<and>
   sortField (handleSort F_no_vig_over initial_state) = F_no_vig_over \<and>
   sortField (handleSort F_line initial_state) = F_line \<and>
   sortDirection (handleSort F_line initial_state) = Asc \<and>
   handleSort F_no_vig_over (handleSort F_no_vig_over initial_state) = initial_state"
  using handleSort_toggle_involution [of F_no_vig_over initial_state]
    handleSort_toggle_involution [of F_line initial_state]
  by (simp add: initial_state_def)

section \<open>Sorting puts null values last\<close>

lemma compare_values_null_left: "compare_values None b dir = 1"
  by (simp add: compare_values_def)

lemma compare_values_null_right: "compare_values (Some a) None dir = - 1"
  by (simp add: compare_values_def)

lemma comparator_null_left:
  "is_null_at (sortField st) a \<Longrightarrow> comparator st a b = 1"
  by (cases "sortField st") (simp_all add: comparator_def is_null_at_def compare_values_def)

lemma comparator_null_right:
  "\<not> is_null_at (sortField st) a \<Longrightarrow> is_null_at (sortField st) b \<Longrightarrow> comparator st a b = - 1"
  by (cases "sortField st") (auto simp add: comparator_def is_null_at_def compare_values_def)

lemma mset_merge_runs: "mset (merge_runs cmp xs ys) = mset xs + mset ys"
  by (induction cmp xs ys rule: merge_runs.induct) auto

lemma set_merge_runs: "set (merge_runs cmp xs ys) = set xs \<union> set ys"
  by (induction cmp xs ys rule: merge_runs.induct) auto

lemma list_all_nulls_last: "list_all P xs \<Longrightarrow> nulls_last P xs"
  by (induction xs) auto

lemma nulls_last_merge_runs:
  "(\<And>a b. P a \<Longrightarrow> \<not> cmp a b < 0) \<Longrightarrow>
   (\<And>a b. \<not> P a \<Longrightarrow> P b \<Longrightarrow> cmp a b < 0) \<Longrightarrow>
   nulls_last P xs \<Longrightarrow> nulls_last P ys \<Longrightarrow> nulls_last P (merge_runs cmp xs ys)"
proof (induction cmp xs ys rule: merge_runs.induct)
  case (1 cmp ys)
  then show ?case by simp
next
  case (2 cmp x xs)
  then show ?case by simp
next
  case (3 cmp x xs y ys)
  note A = "3.prems"(1) and B = "3.prems"(2)
  show ?case
  proof (cases "cmp y x < 0")
    case True
    then have ny: "\<not> P y" using A by blast
    with "3.prems" have "nulls_last P ys" by simp
    with "3.IH"(1) [OF True A B "3.prems"(3)] True ny show ?thesis by simp
  next
    case False
    show ?thesis
    proof (cases "P x")
      case True
      have "P y" using False B True by blast
      with True "3.prems" have "list_all P xs" "list_all P (y # ys)" by simp_all
      then have "list_all P (merge_runs cmp xs (y # ys))"
        by (auto simp add: list_all_iff set_merge_runs)
      with True False show ?thesis by simp
    next
      case nx: False
      with "3.prems" have "nulls_last P xs" by simp
      with "3.IH"(2) [OF False A B _ "3.prems"(4)] False nx show ?thesis by simp
    qed
  qed
qed

lemma mset_Array_sort: "mset (Array_sort cmp xs) = mset xs"
proof (induction cmp xs rule: Array_sort.induct)
  case (1 cmp xs)
  show ?case
  proof (cases "length xs \<le> 1")
    case True
    then show ?thesis by (simp add: Array_sort.simps)
  next
    case False
    have "mset (Array_sort cmp xs) =
        mset (take (length xs div 2) xs) + mset (drop (length xs div 2) xs)"
      using False 1 by (simp add: Array_sort.simps [of cmp xs] mset_merge_runs)
    also have "\<dots> = mset (take (length xs div 2) xs @ drop (length xs div 2) xs)"
      by (simp only: mset_append)
    finally show ?thesis by simp
  qed
qed

lemma nulls_last_short: "length xs \<le> 1 \<Longrightarrow> nulls_last P xs"
  by (cases xs) (auto)

lemma nulls_last_Array_sort:
  assumes A: "\<And>a b. P a \<Longrightarrow> \<not> cmp a b < 0"
    and B: "\<And>a b. \<not> P a \<Longrightarrow> P b \<Longrightarrow> cmp a b < 0"
  shows "nulls_last P (Array_sort cmp xs)"
  using A B
proof (induction cmp xs rule: Array_sort.induct)
  case (1 cmp xs)
  show ?case
  proof (cases "length xs \<le> 1")
    case True
    then show ?thesis by (simp add: Array_sort.simps nulls_last_short)
  next
    case False
    then show ?thesis
      using 1 by (simp add: Array_sort.simps [of cmp xs] nulls_last_merge_runs)
  qed
qed

lemma nulls_last_nth:
  "nulls_last P xs \<Longrightarrow> i < j \<Longrightarrow> j < length xs \<Longrightarrow> P (xs ! i) \<Longrightarrow> P (xs ! j)"
proof (induction xs arbitrary: i j)
  case Nil
  then show ?case by simp
next
  case (Cons x xs)
  show ?case
  proof (cases i)
    case 0
    with Cons.prems have "list_all P xs" by simp
    moreover from Cons.prems 0 obtain j' where "j = Suc j'" "j' < length xs"
      by (cases j) auto
    ultimately show ?thesis by (simp add: list_all_length)
  next
    case (Suc i')
    with Cons.prems obtain j' where j: "j = Suc j'" "i' < j'" "j' < length xs"
      by (cases j) auto
    from Cons.prems have "nulls_last P xs"
      by (auto simp: list_all_nulls_last split: if_splits)
    with Cons.IH [of i' j'] j Suc Cons.prems show ?thesis by simp
  qed
qed

lemma set_Array_sort: "set (Array_sort cmp xs) = set xs"
  using mset_Array_sort [of cmp xs] by (metis set_mset_mset)

lemma Array_filter_subset: "Array_filter p xs = Inr ys \<Longrightarrow> set ys \<subseteq> set xs"
  by (induction xs arbitrary: ys) (auto split: sum.splits if_splits)

lemma sorted_example_desc:
  "filteredAndSortedData
     (Some (example_data
        [example_prop ''a'' (Some 1) None, example_prop ''b'' (Some 1) (Some 1),
         example_prop ''c'' (Some 1) None, example_prop ''d'' (Some 1) (Some 3),
         example_prop ''e'' (Some 1) (Some 2)] JNull None None))
     initial_state =
   Inr (Some
     [example_prop ''d'' (Some 1) (Some 3), example_prop ''e'' (Some 1) (Some 2),
      example_prop ''b'' (Some 1) (Some 1), example_prop ''a'' (Some 1) None,
      example_prop ''c'' (Some 1) None])"
  by code_simp

lemma sorted_example_asc:
  "filteredAndSortedData
     (Some (example_data
        [example_prop ''a'' (Some 1) None, example_prop ''b'' (Some 1) (Some 1),
         example_prop ''c'' (Some 1) None, example_prop ''d'' (Some 1) (Some 3),
         example_prop ''e'' (Some 1) (Some 2)] JNull None None))
     (handleSort F_no_vig_over initial_state) =
   Inr (Some
     [example_prop ''b'' (Some 1) (Some 1), example_prop ''e'' (Some 1) (Some 2),
      example_prop ''d'' (Some 1) (Some 3), example_prop ''a'' (Some 1) None,
      example_prop ''c'' (Some 1) None])"
  by code_simp

text \<open>
  C8. In the sorted list of filtered props, an entry whose value at the active sort field is
  \<^verbatim>\<open>null\<close> comes after every entry whose value there is not \<^verbatim>\<open>null\<close>, whatever the sort
  direction: the comparator answers 1 or -1 on a \<^verbatim>\<open>null\<close> before it looks at the
  direction, and the merge sort keeps what it answers.
\<close>

theorem sort_nulls_last:
  assumes "filteredAndSortedData data st = Inr (Some out)"
    and "i < length out" and "j < length out"
    and "is_null_at (sortField st) (out ! i)"
    and "\<not> is_null_at (sortField st) (out ! j)"
  shows "j < i \<and>
         (\<forall>d. comparator (st\<lparr>sortDirection := d\<rparr>) (out ! i) (out ! j) = 1 \<and>
              comparator (st\<lparr>sortDirection := d\<rparr>) (out ! j) (out ! i) = - 1)"
proof
  from assms(1) obtain fs where out: "out = Array_sort (comparator st) fs"
    by (auto simp: filteredAndSortedData_def split: option.splits sum.splits)
  have "nulls_last (is_null_at (sortField st)) out"
    unfolding out
    by (rule nulls_last_Array_sort) (simp_all add: comparator_null_left comparator_null_right)
  with assms show "j < i"
    by (metis nulls_last_nth linorder_neqE_nat)
next
  show "\<forall>d. comparator (st\<lparr>sortDirection := d\<rparr>) (out ! i) (out ! j) = 1 \<and>
            comparator (st\<lparr>sortDirection := d\<rparr>) (out ! j) (out ! i) = - 1"
    using assms(4,5)
      comparator_null_left [of "st\<lparr>sortDirection := d\<rparr>" "out ! i" "out ! j" for d]
      comparator_null_right [of "st\<lparr>sortDirection := d\<rparr>" "out ! j" "out ! i" for d]
    by simp
qed

theorem sort_nulls_last_witness:
  "filteredAndSortedData
     (Some (example_data
        [example_prop ''a'' (Some 1) None, example_prop ''b'' (Some 1) (Some 1),
         example_prop ''c'' (Some 1) None, example_prop ''d'' (Some 1) (Some 3),
         example_prop ''e'' (Some 1) (Some 2)] JNull None None))
     initial_state =
   Inr (Some
     [example_prop ''d'' (Some 1) (Some 3), example_prop ''e'' (Some 1) (Some 2),
      example_prop ''b'' (Some 1) (Some 1), example_prop ''a'' (Some 1) None,
      example_prop ''c'' (Some 1) None]) \<and>
   filteredAndSortedData
     (Some (example_data
        [example_prop ''a'' (Some 1) None, example_prop ''b'' (Some 1) (Some 1),
         example_prop ''c'' (Some 1) None, example_prop ''d'' (Some 1) (Some 3),
         example_prop ''e'' (Some 1) (Some 2)] JNull None None))
     (handleSort F_no_vig_over initial_state) =
   Inr (Some
     [example_prop ''b'' (Some 1) (Some 1), example_prop ''e'' (Some 1) (Some 2),
      example_prop ''d'' (Some 1) (Some 3), example_prop ''a'' (Some 1) None,
      example_prop ''c'' (Some 1) None]) \<and>
   is_null_at F_no_vig_over (example_prop ''a'' (Some 1) None) \<and>
   \<not> is_null_at F_no_vig_over (example_prop ''b'' (Some 1) (Some 1)) \<and>
   comparator (initial_state\<lparr>sortDirection := Asc\<rparr>)
     (example_prop ''a'' (Some 1) None) (example_prop ''b'' (Some 1) (Some 1)) = 1 \<and>
   comparator (initial_state\<lparr>sortDirection := Desc\<rparr>)
     (example_prop ''a'' (Some 1) None) (example_prop ''b'' (Some 1) (Some 1)) = 1"
proof -
  note d = sorted_example_desc and a = sorted_example_asc
  have sf: "sortField initial_state = F_no_vig_over"
    "sortField (handleSort F_no_vig_over initial_state) = F_no_vig_over"
    by (simp_all add: initial_state_def handleSort_def)
  have n: "is_null_at F_no_vig_over (example_prop ''a'' (Some 1) None)"
    and nn: "\<not> is_null_at F_no_vig_over (example_prop ''b'' (Some 1) (Some 1))"
    by (simp_all add: is_null_at_def example_prop_def)
  have "(2::nat) < 3 \<and>
      (\<forall>dir. comparator (initial_state\<lparr>sortDirection := dir\<rparr>)
           (example_prop ''a'' (Some 1) None) (example_prop ''b'' (Some 1) (Some 1)) = 1 \<and>
         comparator (initial_state\<lparr>sortDirection := dir\<rparr>)
           (example_prop ''b'' (Some 1) (Some 1)) (example_prop ''a'' (Some 1) None) = - 1)"
    using sort_nulls_last [OF d, of 3 2] by (simp add: sf n nn)
  moreover have "(0::nat) < 3"
    using sort_nulls_last [OF a, of 3 0] by (simp add: sf n nn)
  ultimately show ?thesis using d a n nn by simp
qed

section \<open>Two-decimal formatting\<close>

lemma digit_value_digit_char: "d < 10 \<Longrightarrow> digit_value (digit_char d) = Some d"
  by (simp add: digit_value_def digit_char_def less_eq_char_def)

lemma digit_value_minus: "digit_value CHR ''-'' = None"
  by (simp add: digit_value_def less_eq_char_def)

lemma digit_value_zero: "digit_value CHR ''0'' = Some 0"
  by (simp add: digit_value_def less_eq_char_def)

lemma read_digits_append:
  "read_digits (as @ bs) acc =
     (case read_digits as acc of None \<Rightarrow> None | Some a \<Rightarrow> read_digits bs a)"
  by (induction as arbitrary: acc) (auto split: option.splits)

lemma digits_of_nonempty: "digits_of n \<noteq> []"
  by (subst digits_of.simps) simp

lemma read_digits_digits_of:
  "read_digits (digits_of n) acc = Some (acc * 10 ^ length (digits_of n) + n)"
proof (induction n arbitrary: acc rule: digits_of.induct)
  case (1 n)
  show ?case
  proof (cases "n < 10")
    case True
    then show ?thesis
      by (simp add: digits_of.simps [of n] digit_value_digit_char)
  next
    case False
    have "n mod 10 < 10" by simp
    then have dv: "digit_value (digit_char (n mod 10)) = Some (n mod 10)"
      by (rule digit_value_digit_char)
    show ?thesis
      using False 1 [OF False] dv
      by (simp add: digits_of.simps [of n] read_digits_append algebra_simps)
  qed
qed

lemma read_digits_zeros: "read_digits (replicate j CHR ''0'') 0 = Some 0"
  by (induction j) (simp_all add: digit_value_zero)

lemma read_digits_padded:
  "read_digits (replicate j CHR ''0'' @ digits_of n) 0 = Some n"
  by (simp add: read_digits_append read_digits_zeros read_digits_digits_of)

lemma read_digits_acc:
  "read_digits bs acc = map_option (\<lambda>v. acc * 10 ^ length bs + v) (read_digits bs 0)"
proof (induction bs arbitrary: acc)
  case Nil
  show ?case by simp
next
  case (Cons c cs)
  show ?case
  proof (cases "digit_value c")
    case None
    then show ?thesis by simp
  next
    case (Some d)
    have "read_digits (c # cs) acc = read_digits cs (10 * acc + d)"
      using Some by simp
    also have "\<dots> = map_option (\<lambda>v. (10 * acc + d) * 10 ^ length cs + v) (read_digits cs 0)"
      by (rule Cons.IH)
    finally have L: "read_digits (c # cs) acc =
        map_option (\<lambda>v. (10 * acc + d) * 10 ^ length cs + v) (read_digits cs 0)" .
    have "read_digits (c # cs) 0 = read_digits cs d"
      using Some by simp
    also have "\<dots> = map_option (\<lambda>v. d * 10 ^ length cs + v) (read_digits cs 0)"
      by (rule Cons.IH)
    finally have R: "read_digits (c # cs) 0 =
        map_option (\<lambda>v. d * 10 ^ length cs + v) (read_digits cs 0)" .
    show ?thesis
      unfolding L R by (cases "read_digits cs 0") (simp_all add: algebra_simps)
  qed
qed

lemma read_fixed2_body:
  assumes val: "read_digits m 0 = Some n" and len: "3 \<le> length m"
  defines "body \<equiv> take (length m - 2) m @ ''.'' @ drop (length m - 2) m"
  shows "read_fixed2 body = Some (of_nat n / 100)"
    and "read_fixed2 (CHR ''-'' # body) = Some (- (of_nat n / 100))"
proof -
  define A where "A = take (length m - 2) m"
  define B where "B = drop (length m - 2) m"
  have AB: "A @ B = m" and lA: "length A = length m - 2" and lB: "length B = 2"
    using len by (simp_all add: A_def B_def)
  have body: "body = A @ CHR ''.'' # B"
    by (simp add: body_def A_def B_def)
  have Ane: "A \<noteq> []" using lA len by auto
  have Bne: "B \<noteq> []" using lB by auto
  from val AB have "read_digits (A @ B) 0 = Some n" by simp
  then obtain a where a: "read_digits A 0 = Some a" and ra: "read_digits B a = Some n"
    by (auto simp: read_digits_append split: option.splits)
  from ra obtain b where b: "read_digits B 0 = Some b" and n: "n = a * 100 + b"
    by (subst (asm) read_digits_acc) (auto simp: lB)
  have hd_digit: "hd A \<noteq> CHR ''-''"
  proof
    assume "hd A = CHR ''-''"
    with Ane obtain A' where "A = CHR ''-'' # A'" by (cases A) auto
    with a show False by (simp add: digit_value_minus)
  qed
  have lbody: "length body = length A + 3" by (simp add: body lB)
  have dot: "body ! (length body - 3) = CHR ''.''"
    by (simp add: lbody) (simp add: body nth_append)
  have tk: "take (length body - 3) body = A"
    by (simp add: lbody) (simp add: body)
  have dr: "drop (length body - 2) body = B"
    by (simp add: lbody) (simp add: body)
  have hdb: "hd body = hd A" "body \<noteq> []"
    using Ane by (simp_all add: body)
  have eqv: "(of_nat a :: rat) + of_nat b / 100 = of_nat n / 100"
    by (simp add: n)
  show "read_fixed2 body = Some (of_nat n / 100)"
    using hdb hd_digit dot tk dr a b Ane Bne eqv lbody
    by (simp add: read_fixed2_def Let_def read_nat_def)
  show "read_fixed2 (CHR ''-'' # body) = Some (- (of_nat n / 100))"
    using dot tk dr a b Ane Bne eqv lbody
    by (simp add: read_fixed2_def Let_def read_nat_def)
qed

lemma toFixed_2_reads_rounded:
  assumes "\<bar>x\<bar> < 10 ^ 21"
  shows "read_fixed2 (toFixed rt x 2) = Some (round2 x)"
proof -
  define n where "n = nat \<lfloor>\<bar>x\<bar> * 100 + 1 / 2\<rfloor>"
  define m where "m = (if length (digits_of n) \<le> 2
      then replicate (3 - length (digits_of n)) CHR ''0'' @ digits_of n else digits_of n)"
  define body where "body = take (length m - 2) m @ ''.'' @ drop (length m - 2) m"
  have val: "read_digits m 0 = Some n"
    using read_digits_padded [of 0 n] read_digits_padded [of "3 - length (digits_of n)" n]
    by (simp add: m_def)
  have len: "3 \<le> length m"
    by (simp add: m_def)
  have rd: "read_fixed2 body = Some (of_nat n / 100)"
    "read_fixed2 (CHR ''-'' # body) = Some (- (of_nat n / 100))"
    using read_fixed2_body [OF val len] by (simp_all add: body_def)
  have fl: "0 \<le> \<lfloor>\<bar>x\<bar> * 100 + 1 / 2\<rfloor>" by simp
  have nval: "(of_nat n :: rat) = of_int \<lfloor>\<bar>x\<bar> * 100 + 1 / 2\<rfloor>"
    using fl by (simp add: n_def)
  show ?thesis
  proof (cases "x < 0")
    case True
    then have "toFixed rt x 2 = CHR ''-'' # body"
      using assms by (simp add: toFixed_def Let_def body_def m_def n_def)
    then show ?thesis
      using True rd nval by (simp add: round2_def)
  next
    case False
    then have "toFixed rt x 2 = body"
      using assms by (simp add: toFixed_def Let_def body_def m_def n_def)
    moreover have "round2 x = of_nat n / 100"
    proof (cases "x = 0")
      case True
      then show ?thesis by (simp add: round2_def n_def)
    next
      case nz: False
      with False have "sgn x = 1" by simp
      then show ?thesis using nval by (simp add: round2_def)
    qed
    ultimately show ?thesis using rd by simp
  qed
qed

lemma round2_close: "\<bar>round2 x - x\<bar> \<le> 1 / 200"
proof -
  define ax where "ax = \<bar>x\<bar>"
  define f where "f = (of_int \<lfloor>ax * 100 + 1 / 2\<rfloor> :: rat)"
  have 1: "f \<le> ax * 100 + 1 / 2" and 2: "ax * 100 + 1 / 2 < f + 1"
    unfolding f_def by linarith+
  have close: "\<bar>f / 100 - ax\<bar> \<le> 1 / 200"
  proof -
    have "f / 100 - ax \<le> 1 / 200" "- (f / 100 - ax) \<le> 1 / 200"
      using 1 2 by linarith+
    then show ?thesis by (rule abs_leI)
  qed
  have "round2 x - x = sgn x * (f / 100 - ax)"
    by (simp add: round2_def f_def ax_def algebra_simps) (simp add: abs_mult_sgn)
  then have "\<bar>round2 x - x\<bar> = \<bar>sgn x\<bar> * \<bar>f / 100 - ax\<bar>"
    by (simp add: abs_mult)
  also have "\<dots> \<le> \<bar>f / 100 - ax\<bar>"
    by (cases "x = 0") (simp_all add: abs_sgn_eq)
  finally show ?thesis using close by linarith
qed

section \<open>Evaluating the formatting at concrete numbers\<close>

lemma digit_char_values:
  "digit_char 0 = CHR ''0''" "digit_char 1 = CHR ''1''" "digit_char 2 = CHR ''2''"
  "digit_char 3 = CHR ''3''" "digit_char 4 = CHR ''4''" "digit_char 5 = CHR ''5''"
  "digit_char 6 = CHR ''6''" "digit_char 7 = CHR ''7''" "digit_char 8 = CHR ''8''"
  "digit_char 9 = CHR ''9''" "digit_char (Suc 0) = CHR ''1''"
  by code_simp+

lemma digits_of_numeral:
  "digits_of (numeral k) =
     (if numeral k < (10::nat) then [digit_char (numeral k)]
      else digits_of (numeral k div 10) @ [digit_char (numeral k mod 10)])"
  by (rule digits_of.simps)

lemma digits_of_small: "digits_of 0 = ''0''" "digits_of 1 = ''1''" "digits_of (Suc 0) = ''1''"
  by (subst digits_of.simps, simp add: digit_char_values)+

lemma floor_rat_numeral:
  "\<lfloor>numeral a / numeral b :: rat\<rfloor> = numeral a div numeral b"
  "\<lfloor>- (numeral a / numeral b) :: rat\<rfloor> = - numeral a div numeral b"
  "\<lfloor>1 / numeral b :: rat\<rfloor> = 1 div numeral b"
  by (metis floor_divide_of_int_eq of_int_numeral,
      metis divide_minus_left floor_divide_of_int_eq of_int_neg_numeral of_int_numeral,
      metis floor_divide_of_int_eq of_int_numeral of_int_1)

lemmas eval_digits = digits_of_numeral digits_of_small digit_char_values floor_rat_numeral

section \<open>The rendered cells\<close>

lemma Array_map_elements:
  "Array_map f xs = Inr ys \<Longrightarrow> y \<in> set ys \<Longrightarrow> \<exists>x \<in> set xs. f x = Inr y"
  by (induction xs arbitrary: ys) (auto split: sum.splits)

lemma render_row_cells:
  assumes "render_row rt prop = Inr row"
  shows "\<exists>po pu nvo nvu.
           pinnacle_over prop = Some po \<and> pinnacle_under prop = Some pu \<and>
           no_vig_over prop = Some nvo \<and> no_vig_under prop = Some nvu \<and>
           cell_pinnacle_over row = toFixed rt po 2 \<and>
           cell_pinnacle_under row = toFixed rt pu 2 \<and>
           cell_no_vig_over row = toFixed rt nvo 2 \<and>
           cell_no_vig_under row = toFixed rt nvu 2"
  using assms
  by (auto simp: render_row_def field_toFixed_def split: option.splits sum.splits)

lemma toFixed_large:
  "\<bar>x\<bar> \<ge> 10 ^ 21 \<Longrightarrow>
   toFixed rt x 2 = (if x < 0 then ''-'' else []) @ Number_toString rt \<bar>x\<bar>"
  by (auto simp: toFixed_def Let_def)

lemma filter_example:
  "filter_predicate initial_state (example_prop ''Alice'' over nv) = Inr True"
  by (simp add: filter_predicate_def example_prop_def initial_state_def toLowerCase_def)

lemma Array_sort_single: "Array_sort cmp [x] = [x]"
  by (simp add: Array_sort.simps)

lemma example_rows:
  "table_rows example_runtime
     (Some (example_response))
     initial_state =
   Inr [example_row]"
proof -
  have fp: "Array_filter (filter_predicate initial_state)
      [example_prop ''Alice'' (Some (9 / 5)) (Some (7 / 13))] =
      Inr [example_prop ''Alice'' (Some (9 / 5)) (Some (7 / 13))]"
    by (simp add: filter_example)
  have tf: "toFixed example_runtime (9 / 5) 2 = ''1.80''"
    "toFixed example_runtime (21 / 10) 2 = ''2.10''"
    "toFixed example_runtime (7 / 13) 2 = ''0.54''"
    "toFixed example_runtime (1 / 2) 2 = ''0.50''"
    "toFixed example_runtime (- (559 / 5)) 2 = ''-111.80''"
    "toFixed example_runtime (559 / 5) 2 = ''111.80''"
    "toFixed example_runtime (- (1121 / 10)) 2 = ''-112.10''"
    "toFixed example_runtime (1121 / 10) 2 = ''112.10''"
    by (simp_all add: toFixed_def Let_def eval_digits)
  have rr: "render_row example_runtime (example_prop ''Alice'' (Some (9 / 5)) (Some (7 / 13))) =
      Inr example_row"
    by (simp add: example_row_def render_row_def field_toFixed_def example_prop_def tf string_child_def
        number_child_def OddsComparison_def comparison_chip_def js_minus_def Let_def)
  show ?thesis
    by (simp add: table_rows_def filteredAndSortedData_def example_response_def example_data_def filter_example
        Array_sort_single rr)
qed

text \<open>
  C5 (as amended). Every row of the rendered table comes from a record of the response whose
  four fields \<open>pinnacle_over\<close>, \<open>pinnacle_under\<close>, \<open>no_vig_over\<close> and \<open>no_vig_under\<close> are
  numbers, and shows each of them as \<^verbatim>\<open>toFixed(2)\<close> of the field. For a field of magnitude
  below \<open>10^21\<close> that string is an optional sign, digits, a point and exactly two digits,
  and reads as the field rounded to two decimal places (a tie away from zero), at most
  \<open>1/200\<close> from the field.
\<close>

theorem rendered_cells_two_decimals:
  assumes "table_rows rt (Some d) st = Inr rows" and "row \<in> set rows"
  shows "\<exists>ps prop po pu nvo nvu.
           props d = Some ps \<and> prop \<in> set ps \<and> render_row rt prop = Inr row \<and>
           pinnacle_over prop = Some po \<and> pinnacle_under prop = Some pu \<and>
           no_vig_over prop = Some nvo \<and> no_vig_under prop = Some nvu \<and>
           cell_pinnacle_over row = toFixed rt po 2 \<and>
           cell_pinnacle_under row = toFixed rt pu 2 \<and>
           cell_no_vig_over row = toFixed rt nvo 2 \<and>
           cell_no_vig_under row = toFixed rt nvu 2 \<and>
           (\<forall>x \<in> {po, pu, nvo, nvu}.
              \<bar>x\<bar> < 10 ^ 21 \<longrightarrow>
                read_fixed2 (toFixed rt x 2) = Some (round2 x) \<and> \<bar>round2 x - x\<bar> \<le> 1 / 200)"
proof -
  from assms(1) obtain ps fs where ps: "props d = Some ps"
    and fs: "Array_filter (filter_predicate st) ps = Inr fs"
    and rows: "Array_map (render_row rt) (Array_sort (comparator st) fs) = Inr rows"
    using assms(2)
    by (auto simp: table_rows_def filteredAndSortedData_def split: option.splits sum.splits)
  from Array_map_elements [OF rows assms(2)] obtain p
    where p: "p \<in> set (Array_sort (comparator st) fs)" and r: "render_row rt p = Inr row"
    by blast
  from p Array_filter_subset [OF fs] have pin: "p \<in> set ps"
    by (auto simp: set_Array_sort)
  from render_row_cells [OF r] obtain po pu nvo nvu
    where c: "pinnacle_over p = Some po \<and> pinnacle_under p = Some pu \<and>
           no_vig_over p = Some nvo \<and> no_vig_under p = Some nvu \<and>
           cell_pinnacle_over row = toFixed rt po 2 \<and>
           cell_pinnacle_under row = toFixed rt pu 2 \<and>
           cell_no_vig_over row = toFixed rt nvo 2 \<and>
           cell_no_vig_under row = toFixed rt nvu 2"
    by blast
  have rd: "\<forall>x \<in> {po, pu, nvo, nvu}.
              \<bar>x\<bar> < 10 ^ 21 \<longrightarrow>
                read_fixed2 (toFixed rt x 2) = Some (round2 x) \<and> \<bar>round2 x - x\<bar> \<le> 1 / 200"
    using toFixed_2_reads_rounded round2_close by blast
  from ps pin r c rd show ?thesis by blast
qed

theorem rendered_cells_two_decimals_witness:
  "table_rows example_runtime (Some example_response) initial_state = Inr [example_row] \<and>
   cell_no_vig_over example_row = ''0.54'' \<and>
   toFixed example_runtime (7 / 13) 2 = ''0.54'' \<and>
   read_fixed2 ''0.54'' = Some (27 / 50) \<and>
   round2 (7 / 13) = 27 / 50"
proof -
  note h = example_rows
  have m: "example_row \<in> set [example_row]" by simp
  have tf: "toFixed example_runtime (7 / 13) 2 = ''0.54''"
    by (simp add: toFixed_def Let_def eval_digits)
  have r: "round2 (7 / 13) = 27 / 50"
    by (simp add: round2_def eval_digits)
  from rendered_cells_two_decimals [OF h m]
  obtain ps p po pu nvo nvu where ps: "props example_response = Some ps"
    and p: "p \<in> set ps" and nvo: "no_vig_over p = Some nvo"
    and rd: "\<forall>x \<in> {po, pu, nvo, nvu}. \<bar>x\<bar> < 10 ^ 21 \<longrightarrow>
        read_fixed2 (toFixed example_runtime x 2) = Some (round2 x) \<and>
        \<bar>round2 x - x\<bar> \<le> 1 / 200"
    by blast
  from ps p have "p = example_prop ''Alice'' (Some (9 / 5)) (Some (7 / 13))"
    by (auto simp: example_response_def example_data_def)
  with nvo have "nvo = 7 / 13"
    by (simp add: example_prop_def)
  with rd have "read_fixed2 (toFixed example_runtime (7 / 13) 2) = Some (round2 (7 / 13))"
    by simp
  with h tf r show ?thesis by (simp add: example_row_def)
qed

text \<open>
  C5 as stated fails at \<open>10^21\<close>: there \<^verbatim>\<open>toFixed(2)\<close> gives the number's ordinary string
  form, \<^verbatim>\<open>1e+21\<close>, which has no two decimal places.
\<close>

theorem toFixed_exponent_counterexample:
  "(\<exists>row. render_row example_runtime (example_prop ''Alice'' (Some (10 ^ 21)) (Some (7 / 13))) = Inr row \<and>
      cell_pinnacle_over row = ''1e+21'' \<and>
      read_fixed2 (cell_pinnacle_over row) = None) \<and>
   \<not> (\<forall>rt p row x. render_row rt p = Inr row \<and> pinnacle_over p = Some x \<longrightarrow>
        read_fixed2 (cell_pinnacle_over row) = Some (round2 x))"
proof -
  have big: "toFixed example_runtime (10 ^ 21) 2 = ''1e+21''"
    by (simp add: toFixed_def Let_def example_runtime_def)
  have rd: "read_fixed2 ''1e+21'' = None"
    by (simp add: read_fixed2_def Let_def)
  have ex: "\<exists>row. render_row example_runtime (example_prop ''Alice'' (Some (10 ^ 21)) (Some (7 / 13))) = Inr row \<and>
      cell_pinnacle_over row = ''1e+21'' \<and> read_fixed2 (cell_pinnacle_over row) = None"
    using big by (simp add: render_row_def field_toFixed_def example_prop_def rd)
  then obtain row where row: "render_row example_runtime (example_prop ''Alice'' (Some (10 ^ 21)) (Some (7 / 13))) = Inr row"
    and none: "read_fixed2 (cell_pinnacle_over row) = None"
    by blast
  have po: "pinnacle_over (example_prop ''Alice'' (Some (10 ^ 21)) (Some (7 / 13))) = Some (10 ^ 21)"
    by (simp add: example_prop_def)
  have "\<not> (\<forall>rt p row x. render_row rt p = Inr row \<and> pinnacle_over p = Some x \<longrightarrow>
        read_fixed2 (cell_pinnacle_over row) = Some (round2 x))"
  proof
    assume "\<forall>rt p row x. render_row rt p = Inr row \<and> pinnacle_over p = Some x \<longrightarrow>
        read_fixed2 (cell_pinnacle_over row) = Some (round2 x)"
    with row po have "read_fixed2 (cell_pinnacle_over row) = Some (round2 (10 ^ 21))"
      by blast
    with none show False by simp
  qed
  with ex show ?thesis by blast
qed

section \<open>The rows depend on the props and the controls only\<close>

text \<open>
  C9. The rendered rows are a function of the \<open>props\<close> array and of the search term, the
  selected prop type, the sort field and the sort direction: two responses with the same
  \<open>props\<close>, whatever their \<open>status\<close>, \<open>disclaimer\<close> and \<open>last_updated\<close>, give the same rows
  (or the same exception).
\<close>

theorem rows_depend_on_props_and_state_only:
  assumes "props d1 = props d2"
    and "searchTerm st1 = searchTerm st2"
    and "selectedPropType st1 = selectedPropType st2"
    and "sortField st1 = sortField st2"
    and "sortDirection st1 = sortDirection st2"
  shows "table_rows rt (Some d1) st1 = table_rows rt (Some d2) st2"
proof -
  have c: "comparator st1 = comparator st2"
    by (intro ext) (simp add: comparator_def assms split: SortField.split)
  have f: "filter_predicate st1 = filter_predicate st2"
    by (intro ext) (simp add: filter_predicate_def assms split: option.split)
  have "filteredAndSortedData (Some d1) st1 = filteredAndSortedData (Some d2) st2"
    unfolding filteredAndSortedData_def c f by (simp add: assms(1))
  then show ?thesis
    unfolding table_rows_def by (rule arg_cong)
qed

theorem rows_depend_on_props_and_state_only_witness:
  "table_rows example_runtime
     (Some (example_data [example_prop ''Alice'' (Some (9 / 5)) (Some (7 / 13))]
        (JNum 1700000000) (Some ''ok'') None))
     initial_state =
   table_rows example_runtime
     (Some (example_data [example_prop ''Alice'' (Some (9 / 5)) (Some (7 / 13))]
        (JNum 1700000000) (Some ''error'') (Some ''For information only'')))
     (initial_state\<lparr>lastUpdated := ''22:13:20''\<rparr>)"
  by (rule rows_depend_on_props_and_state_only) (simp_all add: example_data_def)

section \<open>The prop-type menu\<close>

text \<open>
  C3. The values of the prop-type menu are \<^verbatim>\<open>all\<close> followed by the ten canonical
  categories of the specification, each once and in the same order.
\<close>

theorem menu_is_canonical_vocabulary:
  "map fst prop_type_menu = ''all'' # canonical_prop_types \<and>
   set (map fst prop_type_menu) = insert ''all'' (set canonical_prop_types) \<and>
   ''all'' \<notin> set canonical_prop_types \<and>
   distinct canonical_prop_types \<and>
   length canonical_prop_types = 10"
  by (simp add: prop_type_menu_def canonical_prop_types_def)

section \<open>The time of the last update\<close>

lemma new_Date_of_int:
  "\<bar>m\<bar> \<le> 8640000000000000 \<Longrightarrow> new_Date (Some (of_int m)) = Some m"
proof -
  assume "\<bar>m\<bar> \<le> 8640000000000000"
  then have "\<bar>(of_int m :: rat)\<bar> \<le> 8640000000000000"
    by (metis of_int_abs of_int_le_iff of_int_numeral)
  then show ?thesis by (simp add: new_Date_def)
qed

lemma new_Date_within_ms:
  assumes "\<bar>x\<bar> \<le> 8640000000000000"
  shows "\<exists>ms. new_Date (Some x) = Some ms \<and> \<bar>of_int ms - x\<bar> < 1"
proof (cases "x < 0")
  case True
  have "\<bar>of_int (- \<lfloor>- x\<rfloor>) - x\<bar> < 1"
    by (simp add: abs_less_iff) linarith
  with True assms show ?thesis by (simp add: new_Date_def)
next
  case False
  have "\<bar>of_int \<lfloor>x\<rfloor> - x\<bar> < 1"
    by (simp add: abs_less_iff) linarith
  with False assms show ?thesis by (simp add: new_Date_def)
qed

text \<open>
  C4 (as amended). For a response whose \<open>last_updated\<close> is a number other than 0, the query
  function sets the displayed time to the local time of the Date built from the number
  times 1000. That Date is within a millisecond of the number read as seconds since the
  epoch, and for a number with millisecond resolution it is the instant \<open>t\<close> (in
  milliseconds since the epoch) exactly when the number is \<open>t / 1000\<close>, that is \<open>t\<close> in epoch
  seconds.
\<close>

theorem last_updated_epoch_seconds:
  assumes "ok r" and "last_updated (json r) = JNum v" and "v \<noteq> 0"
  shows "queryFn rt r st =
           Inr (json r,
                st\<lparr>lastUpdated := toLocaleTimeString rt (new_Date (Some (v * 1000)))\<rparr>) \<and>
         (\<bar>v * 1000\<bar> \<le> 8640000000000000 \<longrightarrow>
            (\<exists>ms. new_Date (Some (v * 1000)) = Some ms \<and> \<bar>of_int ms - v * 1000\<bar> < 1)) \<and>
         (\<forall>m t. v = of_int m / 1000 \<and> \<bar>m\<bar> \<le> 8640000000000000 \<longrightarrow>
            (new_Date (Some (v * 1000)) = Some t \<longleftrightarrow> v = of_int t / 1000))"
proof (intro conjI allI impI)
  show "queryFn rt r st =
      Inr (json r, st\<lparr>lastUpdated := toLocaleTimeString rt (new_Date (Some (v * 1000)))\<rparr>)"
    using assms by (simp add: queryFn_def update_lastUpdated_def)
next
  assume "\<bar>v * 1000\<bar> \<le> 8640000000000000"
  then show "\<exists>ms. new_Date (Some (v * 1000)) = Some ms \<and> \<bar>of_int ms - v * 1000\<bar> < 1"
    by (rule new_Date_within_ms)
next
  fix m t :: int
  assume a: "v = of_int m / 1000 \<and> \<bar>m\<bar> \<le> 8640000000000000"
  then have "v * 1000 = of_int m" by simp
  with a have "new_Date (Some (v * 1000)) = Some m"
    by (simp add: new_Date_of_int)
  moreover have "v = of_int t / 1000 \<longleftrightarrow> m = t"
    using a by simp
  ultimately show "new_Date (Some (v * 1000)) = Some t \<longleftrightarrow> v = of_int t / 1000"
    by simp
qed

theorem last_updated_epoch_seconds_witness:
  "queryFn example_runtime \<lparr>ok = True, json = example_response\<rparr> initial_state =
     Inr (example_response, initial_state\<lparr>lastUpdated := ''22:13:20''\<rparr>) \<and>
   new_Date (Some (1700000000 * 1000)) = Some 1700000000000 \<and>
   new_Date (Some (1700000000 * 1000)) \<noteq> Some 1700000000"
proof -
  have lu: "last_updated (json \<lparr>ok = True, json = example_response\<rparr>) = JNum 1700000000"
    by (simp add: example_response_def example_data_def)
  have nd: "new_Date (Some (1700000000 * 1000)) = Some 1700000000000"
    by (simp add: new_Date_def)
  have tl: "toLocaleTimeString example_runtime (Some 1700000000000) = ''22:13:20''"
    by (simp add: example_runtime_def utc_time_of_day_def Let_def two_digits_def eval_digits)
  from last_updated_epoch_seconds [OF _ lu, of example_runtime initial_state]
  have "queryFn example_runtime \<lparr>ok = True, json = example_response\<rparr> initial_state =
      Inr (example_response,
        initial_state\<lparr>lastUpdated :=
          toLocaleTimeString example_runtime (new_Date (Some (1700000000 * 1000)))\<rparr>)"
    by simp
  then show ?thesis using nd tl by simp
qed

text \<open>
  C4 as stated fails for a response whose \<open>last_updated\<close> is present and 0: the test
  \<^verbatim>\<open>if (data.last_updated)\<close> is false and the displayed time is left as it was.
\<close>

theorem last_updated_zero_counterexample:
  "queryFn example_runtime
     \<lparr>ok = True, json = example_data [] (JNum 0) (Some ''error'') None\<rparr> initial_state =
     Inr (example_data [] (JNum 0) (Some ''error'') None, initial_state) \<and>
   lastUpdated initial_state = [] \<and>
   toLocaleTimeString example_runtime (new_Date (Some (0 * 1000))) = ''00:00:00'' \<and>
   \<not> (\<forall>rt r st v. ok r \<and> last_updated (json r) = JNum v \<longrightarrow>
        queryFn rt r st =
          Inr (json r,
               st\<lparr>lastUpdated := toLocaleTimeString rt (new_Date (Some (v * 1000)))\<rparr>))"
proof -
  define r where "r = \<lparr>ok = True, json = example_data [] (JNum 0) (Some ''error'') None\<rparr>"
  have q: "queryFn example_runtime r initial_state = Inr (json r, initial_state)"
    by (simp add: r_def queryFn_def update_lastUpdated_def example_data_def)
  have l: "lastUpdated initial_state = []"
    by (simp add: initial_state_def)
  have t: "toLocaleTimeString example_runtime (new_Date (Some (0 * 1000))) = ''00:00:00''"
    by (simp add: example_runtime_def new_Date_def utc_time_of_day_def Let_def two_digits_def
        eval_digits)
  have "\<not> (\<forall>rt r st v. ok r \<and> last_updated (json r) = JNum v \<longrightarrow>
        queryFn rt r st =
          Inr (json r,
               st\<lparr>lastUpdated := toLocaleTimeString rt (new_Date (Some (v * 1000)))\<rparr>))"
  proof
    assume "\<forall>rt r st v. ok r \<and> last_updated (json r) = JNum v \<longrightarrow>
        queryFn rt r st =
          Inr (json r,
               st\<lparr>lastUpdated := toLocaleTimeString rt (new_Date (Some (v * 1000)))\<rparr>)"
    moreover have "ok r \<and> last_updated (json r) = JNum 0"
      by (simp add: r_def example_data_def)
    ultimately have "queryFn example_runtime r initial_state =
        Inr (json r, initial_state\<lparr>lastUpdated :=
          toLocaleTimeString example_runtime (new_Date (Some (0 * 1000)))\<rparr>)"
      by blast
    with q t have "initial_state = initial_state\<lparr>lastUpdated := ''00:00:00''\<rparr>"
      by simp
    then have "lastUpdated initial_state = ''00:00:00''"
      by (metis ui_state.select_convs(5) ui_state.surjective ui_state.update_convs(5))
    with l show False by simp
  qed
  with q l t show ?thesis by (simp add: r_def)
qed

section \<open>The serialized snapshot and the frontend interfaces\<close>





section \<open>The odds converter\<close>

text \<open>
  C6. \<open>american_to_decimal\<close> returns \<open>1 + odds/100\<close> for odds of at least 100 and
  \<open>1 + 100/|odds|\<close> for odds of at most -100, and fails, with \<open>InvalidOddsError\<close>, exactly
  for odds strictly between -100 and 100; 110 gives 2.1, -110 gives 21/11 (1.9091 to four
  places) and 50 fails.
\<close>

theorem american_to_decimal_cases:
  "(odds \<ge> 100 \<longrightarrow> american_to_decimal odds = Inr (1 + of_int odds / 100)) \<and>
   (odds \<le> - 100 \<longrightarrow> american_to_decimal odds = Inr (1 + 100 / of_int \<bar>odds\<bar>)) \<and>
   (american_to_decimal odds = Inl InvalidOddsError \<longleftrightarrow> - 100 < odds \<and> odds < 100) \<and>
   (isl (american_to_decimal odds) \<longleftrightarrow> - 100 < odds \<and> odds < 100) \<and>
   american_to_decimal 110 = Inr (21 / 10) \<and>
   american_to_decimal (- 110) = Inr (21 / 11) \<and>
   \<bar>(21 / 11 :: rat) - 19091 / 10000\<bar> < 1 / 10000 \<and>
   american_to_decimal 50 = Inl InvalidOddsError"
  by (simp add: american_to_decimal_def)

theorem american_to_decimal_cases_witness:
  "american_to_decimal 150 = Inr (5 / 2) \<and>
   american_to_decimal (- 200) = Inr (3 / 2) \<and>
   american_to_decimal (- 99) = Inl InvalidOddsError \<and>
   american_to_decimal 99 = Inl InvalidOddsError \<and>
   american_to_decimal 100 = Inr 2 \<and>
   american_to_decimal (- 100) = Inr 2"
  using american_to_decimal_cases [of 150] american_to_decimal_cases [of "- 200"]
    american_to_decimal_cases [of "- 99"] american_to_decimal_cases [of 99]
    american_to_decimal_cases [of 100] american_to_decimal_cases [of "- 100"]
  by simp

section \<open>Rounding to doubles\<close>

lemma expo_up_bounds:
  "1 \<le> x \<Longrightarrow> 0 \<le> expo_up x \<and> 2 powi expo_up x \<le> x \<and> x < 2 powi (expo_up x + 1)"
proof (induction x rule: expo_up.induct)
  case (1 x)
  show ?case
  proof (cases "x < 2")
    case True
    with 1 show ?thesis by (simp add: expo_up.simps [of x])
  next
    case False
    then have "1 \<le> x / 2" by simp
    from 1(1) [OF False this] have IH: "0 \<le> expo_up (x / 2)"
      "2 powi expo_up (x / 2) \<le> x / 2" "x / 2 < 2 powi (expo_up (x / 2) + 1)"
      by simp_all
    have e: "expo_up x = expo_up (x / 2) + 1"
      using False by (simp add: expo_up.simps [of x])
    have "2 powi (expo_up (x / 2) + 1) = (2::rat) * 2 powi expo_up (x / 2)"
      by (simp add: power_int_add)
    moreover have "2 powi (expo_up (x / 2) + 1 + 1) = (2::rat) * 2 powi (expo_up (x / 2) + 1)"
      by (simp add: power_int_add)
    ultimately show ?thesis using IH by (simp add: e)
  qed
qed

lemma expo_down_bounds:
  "0 < x \<Longrightarrow> x < 1 \<Longrightarrow>
   expo_down x < 0 \<and> 2 powi expo_down x \<le> x \<and> x < 2 powi (expo_down x + 1)"
proof (induction x rule: expo_down.induct)
  case (1 x)
  have e: "expo_down x = expo_down (2 * x) - 1"
    using 1(2,3) by (simp add: expo_down.simps [of x])
  have c: "\<not> (x \<le> 0 \<or> 1 \<le> x)" using 1(2,3) by simp
  show ?case
  proof (cases "2 * x < 1")
    case True
    from 1(1) [OF c _ True] 1(2) have IH: "expo_down (2 * x) < 0"
      "2 powi expo_down (2 * x) \<le> 2 * x" "2 * x < 2 powi (expo_down (2 * x) + 1)"
      by simp_all
    have "2 powi (expo_down (2 * x) - 1) = (2 powi expo_down (2 * x) :: rat) / 2"
      by (simp add: power_int_diff)
    moreover have "2 powi (expo_down (2 * x) - 1 + 1) = (2 powi (expo_down (2 * x) + 1) :: rat) / 2"
      by (simp add: power_int_add)
    ultimately show ?thesis using IH by (simp add: e)
  next
    case False
    then have "expo_down (2 * x) = 0"
      by (simp add: expo_down.simps [of "2 * x"])
    then show ?thesis using False 1(2,3) by (simp add: e power_int_minus)
  qed
qed

lemma exponent_bounds:
  assumes "0 < x"
  shows "2 powi exponent x \<le> x" and "x < 2 powi (exponent x + 1)"
  using assms expo_up_bounds [of x] expo_down_bounds [of x]
  by (auto simp: exponent_def)

lemma pow2_less_imp: "(2::rat) powi m < 2 powi n \<Longrightarrow> m < n"
  using power_int_increasing [of n m "2::rat"] by (cases "m < n") auto

lemma pow2_le_imp: "(2::rat) powi m \<le> 2 powi n \<Longrightarrow> m \<le> n"
  using power_int_strict_increasing [of n m "2::rat"] by (cases "m \<le> n") auto

lemma exponent_unique:
  assumes "0 < x" and "2 powi e \<le> x" and "x < 2 powi (e + 1)"
  shows "exponent x = e"
proof -
  have "(2::rat) powi e < 2 powi (exponent x + 1)"
    using assms(2) exponent_bounds(2) [OF assms(1)] by simp
  then have "e < exponent x + 1"
    by (rule pow2_less_imp)
  moreover have "(2::rat) powi exponent x < 2 powi (e + 1)"
    using assms(3) exponent_bounds(1) [OF assms(1)] by simp
  then have "exponent x < e + 1"
    by (rule pow2_less_imp)
  ultimately show ?thesis by simp
qed

lemma exponent_mono:
  assumes "0 < x" and "x \<le> y"
  shows "exponent x \<le> exponent y"
proof -
  have y: "0 < y" using assms by simp
  have "(2::rat) powi exponent x < 2 powi (exponent y + 1)"
    using exponent_bounds(1) [OF assms(1)] exponent_bounds(2) [OF y] assms(2) by simp
  then have "exponent x < exponent y + 1" by (rule pow2_less_imp)
  then show ?thesis by simp
qed

lemma round_half_even_error: "\<bar>of_int (round_half_even y) - y\<bar> \<le> 1 / 2"
proof -
  have "of_int \<lfloor>y\<rfloor> \<le> y" "y < of_int \<lfloor>y\<rfloor> + 1" by linarith+
  then show ?thesis
    by (auto simp: round_half_even_def Let_def abs_le_iff)
qed

lemma round_half_even_ge: "of_int k \<le> y \<Longrightarrow> k \<le> round_half_even y"
proof -
  assume "of_int k \<le> y"
  then have "k \<le> \<lfloor>y\<rfloor>" by (simp add: le_floor_iff)
  then show ?thesis by (auto simp: round_half_even_def Let_def)
qed

lemma round_half_even_le: "y \<le> of_int k \<Longrightarrow> round_half_even y \<le> k"
proof (cases "y = of_int k")
  case True
  then show ?thesis by (simp add: round_half_even_def Let_def)
next
  case False
  assume "y \<le> of_int k"
  with False have "y < of_int k" by simp
  then have "\<lfloor>y\<rfloor> < k" by (simp add: floor_less_iff)
  then show ?thesis by (auto simp: round_half_even_def Let_def)
qed

lemma round_half_even_near:
  "of_int m - 1 / 2 < y \<Longrightarrow> y < of_int m + 1 / 2 \<Longrightarrow> round_half_even y = m"
proof -
  assume a: "of_int m - 1 / 2 < y" "y < of_int m + 1 / 2"
  have e: "\<bar>of_int (round_half_even y) - y\<bar> \<le> 1 / 2" by (rule round_half_even_error)
  have "\<bar>(of_int (round_half_even y) :: rat) - of_int m\<bar> < 1"
    using a e by linarith
  then have "\<bar>round_half_even y - m\<bar> < 1"
    by (metis of_int_abs of_int_diff of_int_less_iff of_int_1)
  then show ?thesis by simp
qed

lemma ulp_pos: "0 < ulp_of x"
  by (simp add: ulp_of_def)

lemma round_to_double_pos:
  "0 < x \<Longrightarrow> round_to_double x = of_int (round_half_even (x / ulp_of x)) * ulp_of x"
  by (simp add: round_to_double_def)

lemma round_to_double_error:
  assumes "0 < x"
  shows "\<bar>round_to_double x - x\<bar> \<le> ulp_of x / 2"
proof -
  define u where "u = ulp_of x"
  have u: "0 < u" by (simp add: u_def ulp_pos)
  have "round_to_double x - x = (of_int (round_half_even (x / u)) - x / u) * u"
    using u assms by (simp add: round_to_double_pos u_def algebra_simps)
  then have "\<bar>round_to_double x - x\<bar> = \<bar>of_int (round_half_even (x / u)) - x / u\<bar> * u"
    using u by (simp add: abs_mult)
  also have "\<dots> \<le> (1 / 2) * u"
    using u round_half_even_error [of "x / u"] by (intro mult_right_mono) simp_all
  finally show ?thesis by (simp add: u_def)
qed

lemma round_to_double_ge_grid:
  assumes "0 < x" and "of_int k * ulp_of x \<le> x"
  shows "of_int k * ulp_of x \<le> round_to_double x"
proof -
  have "of_int k \<le> x / ulp_of x"
    using assms(2) ulp_pos [of x] by (simp add: pos_le_divide_eq)
  then have "k \<le> round_half_even (x / ulp_of x)" by (rule round_half_even_ge)
  then have "(of_int k :: rat) \<le> of_int (round_half_even (x / ulp_of x))" by simp
  then show ?thesis
    using ulp_pos [of x] assms(1) by (simp add: round_to_double_pos)
qed

lemma round_to_double_le_grid:
  assumes "0 < x" and "x \<le> of_int k * ulp_of x"
  shows "round_to_double x \<le> of_int k * ulp_of x"
proof -
  have "x / ulp_of x \<le> of_int k"
    using assms(2) ulp_pos [of x] by (simp add: pos_divide_le_eq)
  then have "round_half_even (x / ulp_of x) \<le> k" by (rule round_half_even_le)
  then have "(of_int (round_half_even (x / ulp_of x)) :: rat) \<le> of_int k" by simp
  then show ?thesis
    using ulp_pos [of x] assms(1) by (simp add: round_to_double_pos)
qed

lemma pow2_int: "0 \<le> n \<Longrightarrow> (2::rat) powi n = of_int (2 ^ nat n)"
  by (simp add: power_int_def)

lemma pow2_grid:
  assumes "e - 52 \<le> n" 
  shows "\<exists>k::int. 0 < k \<and> (2::rat) powi n = of_int k * 2 powi (e - 52)"
proof -
  have "(2::rat) powi n = 2 powi (n - (e - 52)) * 2 powi (e - 52)"
    by (simp flip: power_int_add)
  also have "(2::rat) powi (n - (e - 52)) = of_int (2 ^ nat (n - (e - 52)))"
    using assms by (intro pow2_int) simp
  finally show ?thesis by (intro exI [of _ "2 ^ nat (n - (e - 52))"]) simp
qed

lemma round_to_double_ge_pow:
  assumes "0 < x" and "2 powi n \<le> x" and "- 1074 \<le> n"
  shows "2 powi n \<le> round_to_double x"
proof -
  define E where "E = max (exponent x) (- 1022)"
  have u: "ulp_of x = 2 powi (E - 52)" using assms(1) by (simp add: ulp_of_def E_def)
  have "(2::rat) powi n < 2 powi (exponent x + 1)"
    using assms(2) exponent_bounds(2) [OF assms(1)] by simp
  then have nle: "n \<le> exponent x" using pow2_less_imp by fastforce
  show ?thesis
  proof (cases "- 1022 \<le> exponent x")
    case True
    then have E: "E = exponent x" by (simp add: E_def)
    obtain k :: int where k: "(2::rat) powi exponent x = of_int k * 2 powi (E - 52)"
      using pow2_grid [of E "exponent x"] E by auto
    have "of_int k * ulp_of x \<le> x"
      using exponent_bounds(1) [OF assms(1)] k u by simp
    from round_to_double_ge_grid [OF assms(1) this]
    have "2 powi exponent x \<le> round_to_double x" using k u by simp
    moreover have "(2::rat) powi n \<le> 2 powi exponent x"
      using nle by (intro power_int_increasing) simp_all
    ultimately show ?thesis by simp
  next
    case False
    then have E: "E = - 1022" by (simp add: E_def)
    obtain k :: int where k: "(2::rat) powi n = of_int k * 2 powi (E - 52)"
      using pow2_grid [of E n] E assms(3) by auto
    have "of_int k * ulp_of x \<le> x" using assms(2) k u by simp
    from round_to_double_ge_grid [OF assms(1) this] show ?thesis using k u by simp
  qed
qed

lemma round_to_double_le_pow:
  assumes "0 < x" and "x \<le> 2 powi n" and "- 1074 \<le> n"
  shows "round_to_double x \<le> 2 powi n"
proof -
  define E where "E = max (exponent x) (- 1022)"
  have u: "ulp_of x = 2 powi (E - 52)" using assms(1) by (simp add: ulp_of_def E_def)
  have "(2::rat) powi exponent x \<le> 2 powi n"
    using assms(2) exponent_bounds(1) [OF assms(1)] by simp
  then have "exponent x \<le> n" by (rule pow2_le_imp)
  then have "E - 52 \<le> n" using assms(3) by (simp add: E_def)
  then obtain k :: int where k: "(2::rat) powi n = of_int k * 2 powi (E - 52)"
    using pow2_grid [of E n] by auto
  have "x \<le> of_int k * ulp_of x" using assms(2) k u by simp
  from round_to_double_le_grid [OF assms(1) this] show ?thesis using k u by simp
qed

lemma ulp_of_pos_eq: "0 < x \<Longrightarrow> ulp_of x = 2 powi (max (exponent x) (- 1022) - 52)"
  by (simp add: ulp_of_def)

lemma pow2_add: "(2::rat) powi (a + b) = 2 powi a * 2 powi b"
  by (simp add: power_int_add)

lemma round_to_double_rel_error:
  assumes "2 powi (- 1023) \<le> x"
  shows "\<bar>round_to_double x - x\<bar> \<le> 2 powi (- 52) * x"
proof -
  have x: "0 < x"
    using assms by (rule less_le_trans [rotated]) simp
  define E where "E = max (exponent x) (- 1022)"
  have half: "ulp_of x / 2 = 2 powi (E - 53)"
    using x by (simp add: ulp_of_pos_eq E_def power_int_diff)
  have "(2::rat) powi (- 1023) < 2 powi (exponent x + 1)"
    using assms exponent_bounds(2) [OF x] by simp
  then have lo: "- 1023 \<le> exponent x" using pow2_less_imp by fastforce
  have "(2::rat) powi (E - 53) \<le> 2 powi (- 52) * x"
  proof (cases "- 1022 \<le> exponent x")
    case True
    then have "E = exponent x" by (simp add: E_def)
    then have "(2::rat) powi (E - 53) = 2 powi (- 53) * 2 powi exponent x"
      using pow2_add [of "- 53" "exponent x"] by (simp add: add.commute)
    also have "\<dots> \<le> 2 powi (- 53) * x"
      using exponent_bounds(1) [OF x] by (intro mult_left_mono) simp_all
    also have "\<dots> \<le> 2 powi (- 52) * x"
      using x by (intro mult_right_mono power_int_increasing) simp_all
    finally show ?thesis .
  next
    case False
    then have "E = - 1022" by (simp add: E_def)
    then have "(2::rat) powi (E - 53) = 2 powi (- 52) * 2 powi (- 1023)"
      using pow2_add [of "- 52" "- 1023"] by (simp add: add.commute)
    also have "\<dots> \<le> 2 powi (- 52) * x"
      using assms by (intro mult_left_mono) simp_all
    finally show ?thesis .
  qed
  with round_to_double_error [OF x] half show ?thesis by simp
qed

lemma round_to_double_abs_error:
  assumes "0 < x" and "x \<le> 1"
  shows "\<bar>round_to_double x - x\<bar> \<le> 2 powi (- 53)"
proof -
  define E where "E = max (exponent x) (- 1022)"
  have half: "ulp_of x / 2 = 2 powi (E - 53)"
    using assms(1) by (simp add: ulp_of_pos_eq E_def power_int_diff)
  have "(2::rat) powi exponent x \<le> 2 powi 0"
    using exponent_bounds(1) [OF assms(1)] assms(2) by simp
  then have "exponent x \<le> 0" by (rule pow2_le_imp)
  then have "E - 53 \<le> - 53" by (simp add: E_def)
  then have "(2::rat) powi (E - 53) \<le> 2 powi (- 53)"
    by (intro power_int_increasing) simp_all
  with round_to_double_error [OF assms(1)] half show ?thesis by simp
qed

lemma round_to_double_own_grid:
  assumes "0 < x" and "0 < round_to_double x"
  shows "\<exists>m::int. round_to_double x = of_int m * ulp_of (round_to_double x)"
proof -
  define E where "E = max (exponent x) (- 1022)"
  define u where "u = (2::rat) powi (E - 52)"
  define m where "m = round_half_even (x / u)"
  define p where "p = round_to_double x"
  have u: "ulp_of x = u" using assms(1) by (simp add: ulp_of_pos_eq E_def u_def)
  have upos: "0 < u" by (simp add: u_def)
  have p: "p = of_int m * u"
    using assms(1) by (simp add: p_def round_to_double_pos u m_def)
  have ppos: "0 < p" using assms(2) by (simp add: p_def)
  have top: "(2::rat) powi (E + 1) = of_int (2 ^ 53) * u"
  proof -
    have "(2::rat) powi (E + 1) = 2 powi 53 * 2 powi (E - 52)"
      using pow2_add [of 53 "E - 52"] by (simp add: add.commute)
    then show ?thesis by (simp add: u_def)
  qed
  have "x < 2 powi (exponent x + 1)" by (rule exponent_bounds(2) [OF assms(1)])
  also have "\<dots> \<le> 2 powi (E + 1)"
    by (intro power_int_increasing) (simp_all add: E_def)
  finally have "x \<le> of_int (2 ^ 53) * ulp_of x" using top u by simp
  from round_to_double_le_grid [OF assms(1) this]
  have ple: "p \<le> 2 powi (E + 1)" using top u by (simp add: p_def)
  define E' where "E' = max (exponent p) (- 1022)"
  have u': "ulp_of p = 2 powi (E' - 52)" using ppos by (simp add: ulp_of_pos_eq E'_def)
  have "(2::rat) powi exponent p \<le> 2 powi (E + 1)"
    using exponent_bounds(1) [OF ppos] ple by simp
  then have e'le: "exponent p \<le> E + 1" by (rule pow2_le_imp)
  have "\<exists>m::int. p = of_int m * ulp_of p"
  proof (cases "exponent p \<le> E")
    case True
    then have "E' \<le> E" by (simp add: E'_def E_def)
    then obtain k :: int where "(2::rat) powi (E - 52) = of_int k * 2 powi (E' - 52)"
      using pow2_grid [of E' "E - 52"] by auto
    then have "of_int m * u = of_int (m * k) * (2::rat) powi (E' - 52)"
      by (simp add: u_def)
    then have "p = of_int (m * k) * 2 powi (E' - 52)"
      by (simp only: p)
    then have "p = of_int (m * k) * ulp_of p"
      unfolding u' .
    then show ?thesis by blast
  next
    case False
    with e'le have e': "exponent p = E + 1" by simp
    then have "2 powi (E + 1) \<le> p" using exponent_bounds(1) [OF ppos] by simp
    with ple have peq: "p = 2 powi (E + 1)" by simp
    have "E' = E + 1" using e' by (simp add: E'_def E_def)
    then have "ulp_of p = 2 powi (E - 51)" by (simp add: u')
    moreover have "(2::rat) powi (E + 1) = 2 powi 52 * 2 powi (E - 51)"
      using pow2_add [of 52 "E - 51"] by (simp add: add.commute)
    ultimately have "2 powi (E + 1) = of_int (2 ^ 52) * ulp_of p" by simp
    with peq have "p = of_int (2 ^ 52) * ulp_of p" by (rule trans)
    then show ?thesis by blast
  qed
  then show ?thesis by (simp add: p_def)
qed

lemma round_to_double_above_double:
  assumes "0 < a" and "p = round_to_double a" and "0 < p" and "p \<le> t"
  shows "p \<le> round_to_double t"
proof -
  have t: "0 < t" using assms(3,4) by simp
  define Ep where "Ep = max (exponent p) (- 1022)"
  define Et where "Et = max (exponent t) (- 1022)"
  have "exponent p \<le> exponent t" using assms(3,4) by (rule exponent_mono)
  then have le: "Ep \<le> Et" by (simp add: Ep_def Et_def)
  show ?thesis
  proof (cases "Ep = Et")
    case True
    then have same: "ulp_of p = ulp_of t"
      using assms(3) t by (simp add: ulp_of_pos_eq Ep_def Et_def)
    from round_to_double_own_grid [OF assms(1)] assms(2,3)
    obtain m :: int where "p = of_int m * ulp_of p" by auto
    then have m: "p = of_int m * ulp_of t" using same by simp
    then have "of_int m * ulp_of t \<le> t" using assms(4) by simp
    from round_to_double_ge_grid [OF t this] m show ?thesis by simp
  next
    case False
    with le have lt: "Ep < Et" by simp
    then have Et: "Et = exponent t" "- 1022 < exponent t"
      by (auto simp: Ep_def Et_def max_def split: if_splits)
    have "exponent p + 1 \<le> exponent t" using lt Et by (simp add: Ep_def)
    then have "(2::rat) powi (exponent p + 1) \<le> 2 powi exponent t"
      by (intro power_int_increasing) simp_all
    moreover have "p < 2 powi (exponent p + 1)" by (rule exponent_bounds(2) [OF assms(3)])
    moreover have "2 powi exponent t \<le> round_to_double t"
      using Et by (intro round_to_double_ge_pow [OF t exponent_bounds(1) [OF t]]) simp
    ultimately show ?thesis by simp
  qed
qed

lemma implied_prob_bounds:
  assumes "is_double d" and "1 < d"
  shows "2 powi (- 1024) \<le> round_to_double (1 / d)" and "round_to_double (1 / d) \<le> 1"
proof -
  have pos: "0 < 1 / d" using assms(2) by simp
  have "d < 2 ^ 1024" using assms by (simp add: is_double_def)
  then have "1 / 2 ^ 1024 < 1 / d" using assms(2) by (simp add: frac_less2)
  then have lo: "2 powi (- 1024) \<le> 1 / d" by (simp add: power_int_minus field_simps)
  show "2 powi (- 1024) \<le> round_to_double (1 / d)"
    by (rule round_to_double_ge_pow [OF pos lo]) simp
  have "1 / d \<le> 2 powi 0" using assms(2) by simp
  from round_to_double_le_pow [OF pos this] show "round_to_double (1 / d) \<le> 1" by simp
qed

lemma quotient_rounding:
  assumes "2 powi (- 1024) \<le> p" and "p \<le> s" and "s \<le> 2"
  shows "0 < round_to_double (p / s)" and "round_to_double (p / s) \<le> 1"
    and "\<bar>round_to_double (p / s) - p / s\<bar> \<le> 2 powi (- 53)"
proof -
  have p: "0 < p" using assms(1) by (rule less_le_trans [rotated]) simp
  then have s: "0 < s" using assms(2) by simp
  have pos: "0 < p / s" using p s by simp
  have le1: "p / s \<le> 1" using assms(2) s by simp
  have "2 powi (- 1025) = (2 powi (- 1024) :: rat) / 2"
    using pow2_add [of "- 1024" "- 1"] by (simp add: power_int_minus)
  also have "\<dots> \<le> p / s"
    using assms p s by (intro frac_le) simp_all
  finally have lo: "2 powi (- 1025) \<le> p / s" .
  have "2 powi (- 1025) \<le> round_to_double (p / s)"
    by (rule round_to_double_ge_pow [OF pos lo]) simp
  then show "0 < round_to_double (p / s)"
    by (rule less_le_trans [rotated]) simp
  have "p / s \<le> 2 powi 0" using le1 by simp
  from round_to_double_le_pow [OF pos this] show "round_to_double (p / s) \<le> 1" by simp
  show "\<bar>round_to_double (p / s) - p / s\<bar> \<le> 2 powi (- 53)"
    by (rule round_to_double_abs_error [OF pos le1])
qed

lemma round_to_double_rel_error_wide:
  assumes "2 powi (- 1024) \<le> x"
  shows "\<bar>round_to_double x - x\<bar> \<le> 2 powi (- 51) * x"
proof -
  have x: "0 < x"
    using assms by (rule less_le_trans [rotated]) simp
  define E where "E = max (exponent x) (- 1022)"
  have half: "ulp_of x / 2 = 2 powi (E - 53)"
    using x by (simp add: ulp_of_pos_eq E_def power_int_diff)
  have "(2::rat) powi (E - 53) \<le> 2 powi (- 51) * x"
  proof (cases "- 1022 \<le> exponent x")
    case True
    then have "E = exponent x" by (simp add: E_def)
    then have "(2::rat) powi (E - 53) = 2 powi (- 53) * 2 powi exponent x"
      using pow2_add [of "- 53" "exponent x"] by (simp add: add.commute)
    also have "\<dots> \<le> 2 powi (- 53) * x"
      using exponent_bounds(1) [OF x] by (intro mult_left_mono) simp_all
    also have "\<dots> \<le> 2 powi (- 51) * x"
      using x by (intro mult_right_mono power_int_increasing) simp_all
    finally show ?thesis .
  next
    case False
    then have "E = - 1022" by (simp add: E_def)
    then have "(2::rat) powi (E - 53) = 2 powi (- 51) * 2 powi (- 1024)"
      using pow2_add [of "- 51" "- 1024"] by (simp add: add.commute)
    also have "\<dots> \<le> 2 powi (- 51) * x"
      using assms by (intro mult_left_mono) simp_all
    finally show ?thesis .
  qed
  with round_to_double_error [OF x] half show ?thesis by simp
qed

lemma quotient_perturbation:
  fixes a b p q s e :: rat
  assumes "0 < a" and "0 < b" and "0 \<le> e" and "e \<le> 1 / 8"
    and "\<bar>p - a\<bar> \<le> e * a" and "\<bar>q - b\<bar> \<le> e * b" and "\<bar>s - (p + q)\<bar> \<le> e * (p + q)"
  shows "\<bar>p / s - a / (a + b)\<bar> \<le> 8 * e"
proof -
  define c where "c = a + b"
  have c: "0 < c" using assms(1,2) by (simp add: c_def)
  have ec_split: "e * c = e * a + e * b" by (simp add: c_def algebra_simps)
  have "\<bar>(p + q) - (a + b)\<bar> \<le> e * a + e * b"
    using assms(5,6) by linarith
  then have tc: "\<bar>(p + q) - c\<bar> \<le> e * c"
    by (simp only: ec_split) (simp only: c_def)
  have ec: "e * c \<le> c / 8" using assms(4) c by simp
  have "p + q \<le> 2 * c" using tc ec c by linarith
  then have "e * (p + q) \<le> e * (2 * c)"
    using assms(3) by (rule mult_left_mono)
  then have "e * (p + q) \<le> 2 * (e * c)" by simp
  with assms(7) tc have sc: "\<bar>s - c\<bar> \<le> 3 * (e * c)" by linarith
  have s_lo: "c / 2 \<le> s" using sc ec by linarith
  then have s: "0 < s" using c by linarith
  have n1: "\<bar>(p - a) * c\<bar> \<le> e * a * c"
    using assms(5) c by (simp add: abs_mult)
  have n2: "\<bar>a * (c - s)\<bar> \<le> a * (3 * (e * c))"
    using sc assms(1) by (simp add: abs_mult abs_minus_commute)
  have "p * c - a * s = (p - a) * c + a * (c - s)" by (simp add: algebra_simps)
  moreover have "a * (3 * (e * c)) = 3 * (e * a * c)" by simp
  ultimately have num: "\<bar>p * c - a * s\<bar> \<le> 4 * (e * a * c)"
    using n1 n2 by linarith
  have "p / s - a / c = (p * c - a * s) / (s * c)"
    using s c by (simp add: field_simps)
  then have "\<bar>p / s - a / c\<bar> = \<bar>p * c - a * s\<bar> / (s * c)"
    using s c by (simp add: abs_divide abs_mult)
  also have "\<dots> \<le> 4 * (e * a * c) / (s * c)"
    using num s c by (intro divide_right_mono) simp_all
  also have "\<dots> = 4 * e * a / s" using c by simp
  also have "\<dots> \<le> 4 * e * a / (c / 2)"
    using s_lo c assms(1,3) by (intro divide_left_mono) simp_all
  also have "\<dots> = 8 * e * (a / c)" by simp
  also have "\<dots> \<le> 8 * e * 1"
    using assms(1,2,3) c by (intro mult_left_mono) (simp_all add: c_def)
  finally show ?thesis by (simp add: c_def)
qed

lemma reciprocal_lower:
  assumes "is_double d" and "1 < d"
  shows "2 powi (- 1024) \<le> 1 / d"
proof -
  have "d < 2 ^ 1024" using assms by (simp add: is_double_def)
  then have "1 / 2 ^ 1024 < 1 / d" using assms(2) by (simp add: frac_less2)
  then show ?thesis by (simp add: power_int_minus field_simps)
qed

lemma round_to_double_eval:
  assumes "0 < x" and "2 powi e \<le> x" and "x < 2 powi (e + 1)" and "- 1022 \<le> e"
    and "of_int m - 1 / 2 < x / 2 powi (e - 52)" and "x / 2 powi (e - 52) < of_int m + 1 / 2"
  shows "round_to_double x = of_int m * 2 powi (e - 52)"
proof -
  have "exponent x = e" by (rule exponent_unique [OF assms(1-3)])
  then have u: "ulp_of x = 2 powi (e - 52)"
    using assms(1,4) by (simp add: ulp_of_pos_eq)
  have "round_half_even (x / 2 powi (e - 52)) = m"
    by (rule round_half_even_near [OF assms(5,6)])
  then show ?thesis using assms(1) by (simp add: round_to_double_pos u)
qed

lemma double_values:
  "round_to_double 1 = 1" "round_to_double 2 = 2" "round_to_double 4 = 4"
  "round_to_double (1 / 2) = 1 / 2" "round_to_double (1 / 4) = 1 / 4"
  "round_to_double (3 / 4) = 3 / 4"
  "round_to_double (10 ^ 20) = 10 ^ 20"
  using round_to_double_eval [of 1 0 "2 ^ 52"]
    round_to_double_eval [of 2 1 "2 ^ 52"]
    round_to_double_eval [of 4 2 "2 ^ 52"]
    round_to_double_eval [of "1 / 2" "- 1" "2 ^ 52"]
    round_to_double_eval [of "1 / 4" "- 2" "2 ^ 52"]
    round_to_double_eval [of "3 / 4" "- 1" "3 * 2 ^ 51"]
    round_to_double_eval [of "10 ^ 20" 66 "6103515625000000"]
  by (simp_all add: power_int_minus)

lemma two_thirds:
  "round_to_double (2 / 3) = 6004799503160661 / 9007199254740992"
  "round_to_double (1 / 3) = 6004799503160661 / 18014398509481984"
  using round_to_double_eval [of "2 / 3" "- 1" 6004799503160661]
    round_to_double_eval [of "1 / 3" "- 2" 6004799503160661]
  by (simp_all add: power_int_minus)

section \<open>The no-vig probabilities\<close>

text \<open>
  C2 (as amended). For doubles \<open>o > 1\<close> and \<open>u > 1\<close>, \<open>no_vig_probabilities\<close> returns the
  double evaluations of \<open>(1/o) / (1/o + 1/u)\<close> and \<open>(1/u) / (1/o + 1/u)\<close>, each within
  \<open>10^-9\<close> of the exact quotient; the two sum to 1 within \<open>10^-9\<close>, and each is greater than 0
  and at most 1.
\<close>

theorem no_vig_probabilities_normalized:
  assumes "is_double over_decimal" and "is_double under_decimal"
    and "over_decimal > 1" and "under_decimal > 1"
  defines "p_o \<equiv> round_to_double (1 / over_decimal)"
    and "p_u \<equiv> round_to_double (1 / under_decimal)"
  defines "p_over \<equiv> round_to_double (p_o / round_to_double (p_o + p_u))"
    and "p_under \<equiv> round_to_double (p_u / round_to_double (p_o + p_u))"
  shows "no_vig_probabilities over_decimal under_decimal = Inr (p_over, p_under) \<and>
         \<bar>p_over - (1 / over_decimal) / (1 / over_decimal + 1 / under_decimal)\<bar> \<le> 1 / 10 ^ 9 \<and>
         \<bar>p_under - (1 / under_decimal) / (1 / over_decimal + 1 / under_decimal)\<bar> \<le> 1 / 10 ^ 9 \<and>
         \<bar>p_over + p_under - 1\<bar> \<le> 1 / 10 ^ 9 \<and>
         0 < p_over \<and> p_over \<le> 1 \<and> 0 < p_under \<and> p_under \<le> 1"
proof -
  define a where "a = 1 / over_decimal"
  define b where "b = 1 / under_decimal"
  define t where "t = p_o + p_u"
  define s where "s = round_to_double t"
  have a: "0 < a" "2 powi (- 1024) \<le> a"
    using assms(3) reciprocal_lower [OF assms(1,3)] by (simp_all add: a_def)
  have b: "0 < b" "2 powi (- 1024) \<le> b"
    using assms(4) reciprocal_lower [OF assms(2,4)] by (simp_all add: b_def)
  have po: "2 powi (- 1024) \<le> p_o" "p_o \<le> 1"
    unfolding p_o_def by (rule implied_prob_bounds [OF assms(1,3)])+
  have pu: "2 powi (- 1024) \<le> p_u" "p_u \<le> 1"
    unfolding p_u_def by (rule implied_prob_bounds [OF assms(2,4)])+
  have po_pos: "0 < p_o" using po(1) by (rule less_le_trans [rotated]) simp
  have pu_pos: "0 < p_u" using pu(1) by (rule less_le_trans [rotated]) simp
  have tpos: "0 < t" using po_pos pu_pos by (simp add: t_def)
  have "2 powi (- 1023) = (2 powi (- 1024) :: rat) + 2 powi (- 1024)"
    using pow2_add [of "- 1024" 1] by simp
  also have "\<dots> \<le> t" using po(1) pu(1) by (simp add: t_def)
  finally have tlo: "2 powi (- 1023) \<le> t" .
  have thi: "t \<le> 2 powi 1" using po(2) pu(2) by (simp add: t_def)
  have s_hi: "s \<le> 2"
    using round_to_double_le_pow [OF tpos thi] by (simp add: s_def)
  have s_po: "p_o \<le> s"
    unfolding s_def
    by (rule round_to_double_above_double [of "1 / over_decimal"])
      (use assms(3) po_pos pu_pos in \<open>simp_all add: p_o_def t_def\<close>)
  have s_pu: "p_u \<le> s"
    unfolding s_def
    by (rule round_to_double_above_double [of "1 / under_decimal"])
      (use assms(4) po_pos pu_pos in \<open>simp_all add: p_u_def t_def\<close>)
  have spos: "0 < s" using s_po po_pos by simp
  have rel: "\<bar>s - t\<bar> \<le> 2 powi (- 52) * t"
    unfolding s_def by (rule round_to_double_rel_error [OF tlo])
  have q1: "0 < p_over" "p_over \<le> 1" "\<bar>p_over - p_o / s\<bar> \<le> 2 powi (- 53)"
    using quotient_rounding [OF po(1) s_po s_hi] by (simp_all add: p_over_def s_def t_def)
  have q2: "0 < p_under" "p_under \<le> 1" "\<bar>p_under - p_u / s\<bar> \<le> 2 powi (- 53)"
    using quotient_rounding [OF pu(1) s_pu s_hi] by (simp_all add: p_under_def s_def t_def)
  have res: "no_vig_probabilities over_decimal under_decimal = Inr (p_over, p_under)"
    using assms(3,4) spos
    by (simp add: no_vig_probabilities_def Let_def p_over_def p_under_def p_o_def p_u_def
        s_def t_def)
  have eps: "(2::rat) powi (- 51) = 1 / 2251799813685248"
    "(2::rat) powi (- 52) = 1 / 4503599627370496"
    "(2::rat) powi (- 53) = 1 / 9007199254740992"
    by (simp_all add: power_int_minus)
  have "\<bar>t - s\<bar> \<le> (1 / 2251799813685248) * s"
    using rel tpos spos unfolding eps by linarith
  then have "\<bar>t - s\<bar> / s \<le> 1 / 2251799813685248"
    using spos by (simp add: pos_divide_le_eq)
  moreover have "t / s - 1 = (t - s) / s"
    using spos by (simp add: field_simps)
  ultimately have ts: "\<bar>t / s - 1\<bar> \<le> 1 / 2251799813685248"
    using spos by (simp add: abs_divide)
  have "p_over + p_under - 1 = (p_over - p_o / s) + (p_under - p_u / s) + (t / s - 1)"
    by (simp add: t_def add_divide_distrib)
  then have "\<bar>p_over + p_under - 1\<bar> \<le> 1 / 1000000000"
    using q1(3) q2(3) ts unfolding eps by linarith
  then have sum: "\<bar>p_over + p_under - 1\<bar> \<le> 1 / 10 ^ 9"
    by simp
  have ea: "\<bar>p_o - a\<bar> \<le> 2 powi (- 51) * a"
    unfolding p_o_def a_def [symmetric] by (rule round_to_double_rel_error_wide [OF a(2)])
  have eb: "\<bar>p_u - b\<bar> \<le> 2 powi (- 51) * b"
    unfolding p_u_def b_def [symmetric] by (rule round_to_double_rel_error_wide [OF b(2)])
  have es: "\<bar>s - (p_o + p_u)\<bar> \<le> 2 powi (- 51) * (p_o + p_u)"
    using rel tpos unfolding eps t_def by linarith
  have es': "\<bar>s - (p_u + p_o)\<bar> \<le> 2 powi (- 51) * (p_u + p_o)"
    using es by (simp add: add.commute)
  have c1: "\<bar>p_o / s - a / (a + b)\<bar> \<le> 8 * 2 powi (- 51)"
    by (rule quotient_perturbation [OF a(1) b(1) _ _ ea eb es]) (simp_all add: eps)
  have c2: "\<bar>p_u / s - b / (b + a)\<bar> \<le> 8 * 2 powi (- 51)"
    by (rule quotient_perturbation [OF b(1) a(1) _ _ eb ea es']) (simp_all add: eps)
  have "\<bar>p_over - a / (a + b)\<bar> \<le> 1 / 1000000000"
    using q1(3) c1 unfolding eps by linarith
  then have close1: "\<bar>p_over - a / (a + b)\<bar> \<le> 1 / 10 ^ 9" by simp
  have "\<bar>p_under - b / (b + a)\<bar> \<le> 1 / 1000000000"
    using q2(3) c2 unfolding eps by linarith
  then have close2: "\<bar>p_under - b / (a + b)\<bar> \<le> 1 / 10 ^ 9" by (simp add: add.commute)
  from res sum q1 q2 close1 close2 show ?thesis
    unfolding a_def b_def by blast
qed

theorem no_vig_probabilities_normalized_witness:
  "is_double 2 \<and> is_double 4 \<and>
   no_vig_probabilities 2 4 =
     Inr (6004799503160661 / 9007199254740992, 6004799503160661 / 18014398509481984) \<and>
   \<bar>(6004799503160661 / 9007199254740992 + 6004799503160661 / 18014398509481984 :: rat) - 1\<bar>
     \<le> 1 / 10 ^ 9"
proof -
  have d: "is_double 2" "is_double 4"
    by (simp_all add: is_double_def double_values)
  have v: "round_to_double (round_to_double (1 / 2) / round_to_double (round_to_double (1 / 2) + round_to_double (1 / 4))) =
      6004799503160661 / 9007199254740992"
    "round_to_double (round_to_double (1 / 4) / round_to_double (round_to_double (1 / 2) + round_to_double (1 / 4))) =
      6004799503160661 / 18014398509481984"
    by (simp_all add: double_values two_thirds)
  from no_vig_probabilities_normalized [OF d] v show ?thesis
    using d by simp
qed

text \<open>
  C2 as stated fails on the upper bound: at \<open>o = 10^20\<close>, \<open>u = 2\<close> the sum \<open>1/o + 1/u\<close> rounds
  to \<open>1/2\<close> and \<open>p_under\<close> is exactly 1.
\<close>

theorem no_vig_probabilities_one_counterexample:
  "is_double (10 ^ 20) \<and> is_double 2 \<and> (1::rat) < 10 ^ 20 \<and>
   map_sum id snd (no_vig_probabilities (10 ^ 20) 2) = Inr 1"
proof -
  define p where "p = round_to_double (1 / 10 ^ 20)"
  have pos: "(0::rat) < 1 / 10 ^ 20" by simp
  have lo: "2 powi (- 67) \<le> p"
    unfolding p_def by (rule round_to_double_ge_pow [OF pos]) (simp_all add: power_int_minus)
  have hi: "p \<le> 2 powi (- 66)"
    unfolding p_def by (rule round_to_double_le_pow [OF pos]) (simp_all add: power_int_minus)
  have ppos: "0 < p" using lo by (rule less_le_trans [rotated]) simp
  have hi': "p \<le> 1 / 73786976294838206464" using hi by (simp add: power_int_minus)
  have "round_to_double (p + 1 / 2) = of_int (2 ^ 52) * 2 powi (- 1 - 52)"
    by (rule round_to_double_eval) (use ppos hi' in \<open>simp_all add: power_int_minus field_simps\<close>)
  then have s: "round_to_double (p + 1 / 2) = 1 / 2"
    by (simp add: power_int_minus)
  have pd: "round_to_double (1 / 100000000000000000000) = p"
    by (simp add: p_def)
  have "no_vig_probabilities (10 ^ 20) 2 = Inr (round_to_double (p / (1 / 2)), 1)"
    by (simp add: no_vig_probabilities_def Let_def double_values s pd)
  then show ?thesis
    using double_values(7) by (simp add: is_double_def double_values)
qed

section \<open>The matcher is an inner join\<close>

lemma complete_group_Some_iff:
  "complete_group g \<noteq> None \<longleftrightarrow>
     length g = 2 \<and> length (filter (\<lambda>r. rp_side r = Side_over) g) = 1 \<and>
     length (filter (\<lambda>r. rp_side r = Side_under) g) = 1"
  by (auto simp: complete_group_def length_Suc_conv split: list.splits)

lemma complete_group_SomeD:
  assumes "complete_group g = Some (ov, un)"
  shows "ov \<in> set g \<and> un \<in> set g \<and> rp_side ov = Side_over \<and> rp_side un = Side_under"
proof -
  from assms have ov: "filter (\<lambda>r. rp_side r = Side_over) g = [ov]"
    and un: "filter (\<lambda>r. rp_side r = Side_under) g = [un]"
    by (auto simp: complete_group_def split: list.splits if_splits)
  have "ov \<in> set (filter (\<lambda>r. rp_side r = Side_over) g)" by (simp add: ov)
  moreover have "un \<in> set (filter (\<lambda>r. rp_side r = Side_under) g)" by (simp add: un)
  ultimately show ?thesis by simp
qed

lemma one_over_one_under_iff:
  "one_over_one_under reference k \<longleftrightarrow> complete_group (reference_group reference k) \<noteq> None"
  unfolding one_over_one_under_def by (rule complete_group_Some_iff [symmetric])

lemma index_fold_keys:
  "fst ` set (foldl (\<lambda>idx r. AList.update (match_key r) r idx) idx0 rs) =
     fst ` set idx0 \<union> match_key ` set rs"
  by (induction rs arbitrary: idx0) (auto simp: AList.dom_update)

lemma index_fold_distinct:
  "distinct (map fst idx0) \<Longrightarrow>
   distinct (map fst (foldl (\<lambda>idx r. AList.update (match_key r) r idx) idx0 rs))"
  by (induction rs arbitrary: idx0) (simp_all add: AList.distinct_update)

lemma set_update_subset: "set (AList.update k v al) \<subseteq> insert (k, v) (set al)"
  by (induction al) auto

lemma index_fold_entries:
  "(\<forall>(k, r) \<in> set idx0. match_key r = k \<and> r \<in> S) \<Longrightarrow> set rs \<subseteq> S \<Longrightarrow>
   (\<forall>(k, r) \<in> set (foldl (\<lambda>idx r. AList.update (match_key r) r idx) idx0 rs).
      match_key r = k \<and> r \<in> S)"
proof (induction rs arbitrary: idx0)
  case Nil
  then show ?case by simp
next
  case (Cons x xs)
  have "\<forall>(k, r) \<in> set (AList.update (match_key x) x idx0). match_key r = k \<and> r \<in> S"
    using Cons.prems set_update_subset [of "match_key x" x idx0] by auto
  with Cons.IH [of "AList.update (match_key x) x idx0"] Cons.prems show ?case by simp
qed

lemma retail_index_keys: "fst ` set (retail_index retail) = match_key ` set retail"
  by (simp add: retail_index_def index_fold_keys)

lemma retail_index_distinct: "distinct (map fst (retail_index retail))"
  by (simp add: retail_index_def index_fold_distinct)

lemma retail_index_entries:
  "(k, r) \<in> set (retail_index retail) \<Longrightarrow> match_key r = k \<and> r \<in> set retail"
  using index_fold_entries [of "[]" "set retail" retail]
  by (auto simp: retail_index_def)

lemma count_key_map_filter:
  fixes f :: "MatchKey \<times> RawProp \<Rightarrow> (RawProp \<times> RawProp \<times> RawProp) option"
  assumes f: "\<And>k' r. f (k', r) = map_option (\<lambda>(ov, un). (r, ov, un)) (g k')"
  shows "distinct (map fst idx) \<Longrightarrow> (\<forall>(k', r) \<in> set idx. match_key r = k') \<Longrightarrow>
    length (filter (\<lambda>(r, ov, un). match_key r = k) (List.map_filter f idx)) =
      (if k \<in> fst ` set idx \<and> g k \<noteq> None then 1 else 0)"
proof (induction idx)
  case Nil
  then show ?case by simp
next
  case (Cons p idx)
  obtain k' r where p: "p = (k', r)" by (cases p)
  from Cons.prems p have key: "match_key r = k'" and notin: "k' \<notin> fst ` set idx"
    and d: "distinct (map fst idx)" and inv: "\<forall>(k', r) \<in> set idx. match_key r = k'"
    by auto
  note IH = Cons.IH [OF d inv]
  show ?case
  proof (cases "g k'")
    case None
    then show ?thesis using IH p by (auto simp: f)
  next
    case (Some ou)
    then show ?thesis using IH p key notin by (cases ou) (auto simp: f)
  qed
qed

lemma match_entries:
  assumes "(r, ov, un) \<in> set (match retail reference)"
  shows "r \<in> set retail \<and> complete_group (reference_group reference (match_key r)) = Some (ov, un)"
proof -
  from assms obtain k r' where in_idx: "(k, r') \<in> set (retail_index retail)"
    and res: "map_option (\<lambda>(ov, un). (r', ov, un)) (complete_group (reference_group reference k)) = Some (r, ov, un)"
    by (auto simp: match_def List.map_filter_def)
  from res have "r' = r" and "complete_group (reference_group reference k) = Some (ov, un)"
    by auto
  with retail_index_entries [OF in_idx] show ?thesis by auto
qed

text \<open>
  C7. \<open>match\<close> is an inner join on the MatchKey: for every key the result has exactly one
  triple when the key is a retail key whose reference records are exactly one over and one
  under entry, and none otherwise; every triple joins a retail record with the over and the
  under record of its key.
\<close>

theorem match_inner_join:
  "length (filter (\<lambda>(r, ov, un). match_key r = k) (match retail reference)) =
     (if k \<in> match_key ` set retail \<and> one_over_one_under reference k then 1 else 0) \<and>
   (\<forall>(r, ov, un) \<in> set (match retail reference).
      r \<in> set retail \<and> ov \<in> set reference \<and> un \<in> set reference \<and>
      rp_side ov = Side_over \<and> rp_side un = Side_under \<and>
      match_key ov = match_key r \<and> match_key un = match_key r \<and>
      one_over_one_under reference (match_key r))"
proof
  have "length (filter (\<lambda>(r, ov, un). match_key r = k) (match retail reference)) =
      (if k \<in> fst ` set (retail_index retail) \<and>
          complete_group (reference_group reference k) \<noteq> None then 1 else 0)"
    unfolding match_def
    by (rule count_key_map_filter)
      (auto simp: retail_index_distinct dest: retail_index_entries)
  then show "length (filter (\<lambda>(r, ov, un). match_key r = k) (match retail reference)) =
     (if k \<in> match_key ` set retail \<and> one_over_one_under reference k then 1 else 0)"
    by (simp add: retail_index_keys one_over_one_under_iff)
next
  show "\<forall>(r, ov, un) \<in> set (match retail reference).
      r \<in> set retail \<and> ov \<in> set reference \<and> un \<in> set reference \<and>
      rp_side ov = Side_over \<and> rp_side un = Side_under \<and>
      match_key ov = match_key r \<and> match_key un = match_key r \<and>
      one_over_one_under reference (match_key r)"
  proof (clarify)
    fix r ov un
    assume "(r, ov, un) \<in> set (match retail reference)"
    from match_entries [OF this] have r: "r \<in> set retail"
      and cg: "complete_group (reference_group reference (match_key r)) = Some (ov, un)"
      by simp_all
    from complete_group_SomeD [OF cg] have "ov \<in> set (reference_group reference (match_key r))"
      "un \<in> set (reference_group reference (match_key r))" "rp_side ov = Side_over" "rp_side un = Side_under"
      by simp_all
    moreover from cg have "one_over_one_under reference (match_key r)"
      by (simp add: one_over_one_under_iff)
    ultimately show "r \<in> set retail \<and> ov \<in> set reference \<and> un \<in> set reference \<and>
      rp_side ov = Side_over \<and> rp_side un = Side_under \<and>
      match_key ov = match_key r \<and> match_key un = match_key r \<and>
      one_over_one_under reference (match_key r)"
      using r by (simp add: reference_group_def)
  qed
qed

theorem match_inner_join_witness:
  "match [alice_retail] [alice_over, alice_under] = [(alice_retail, alice_over, alice_under)] \<and>
   match [alice_retail] [alice_over] = [] \<and>
   one_over_one_under [alice_over, alice_under] (match_key alice_retail) \<and>
   \<not> one_over_one_under [alice_over] (match_key alice_retail) \<and>
   length (filter (\<lambda>(r, ov, un). match_key r = match_key alice_retail)
     (match [alice_retail] [alice_over, alice_under])) = 1 \<and>
   length (filter (\<lambda>(r, ov, un). match_key r = match_key alice_retail)
     (match [alice_retail] [alice_over])) = 0"
proof -
  have k: "match_key alice_retail \<in> match_key ` set [alice_retail]" by simp
  have keys: "match_key alice_over = match_key alice_retail"
    "match_key alice_under = match_key alice_retail"
    by (simp_all add: match_key_def alice_retail_def alice_over_def alice_under_def example_raw_def)
  have sides: "rp_side alice_over = Side_over" "rp_side alice_under = Side_under"
    by (simp_all add: alice_over_def alice_under_def example_raw_def)
  have c: "one_over_one_under [alice_over, alice_under] (match_key alice_retail)"
    by (simp add: one_over_one_under_def reference_group_def keys sides)
  have nc: "\<not> one_over_one_under [alice_over] (match_key alice_retail)"
    by (simp add: one_over_one_under_def reference_group_def keys sides)
  have m1: "match [alice_retail] [alice_over, alice_under] =
      [(alice_retail, alice_over, alice_under)]"
    by (simp add: match_def retail_index_def reference_group_def complete_group_def keys sides)
  have m2: "match [alice_retail] [alice_over] = []"
    by (simp add: match_def retail_index_def reference_group_def complete_group_def keys sides)
  from match_inner_join [of "match_key alice_retail" "[alice_retail]" "[alice_over, alice_under]"]
    k c
  have l1: "length (filter (\<lambda>(r, ov, un). match_key r = match_key alice_retail)
     (match [alice_retail] [alice_over, alice_under])) = 1"
    by simp
  from match_inner_join [of "match_key alice_retail" "[alice_retail]" "[alice_over]"] k nc
  have l2: "length (filter (\<lambda>(r, ov, un). match_key r = match_key alice_retail)
     (match [alice_retail] [alice_over])) = 0"
    by simp
  from m1 m2 c nc l1 l2 show ?thesis by simp
qed

end
